theory Spec2Isabelle
  imports Main "HOL-Library.AList"
begin

section \<open>JavaScript values\<close>

text \<open>
  The converter (\<^verbatim>\<open>openapi/parser.ts\<close>) and the proxy (\<^verbatim>\<open>mcp/proxy.ts\<close>) work on plain
  JSON data: the OpenAPI document, the schemas built from it, the arguments of a tool
  call. The TypeScript types are erased at run time, so the model keeps the data
  dynamically typed as well. An object is the list of its own enumerable entries in
  the order \<^verbatim>\<open>Object.entries\<close> lists them; a property that is absent reads as
  \<^verbatim>\<open>undefined\<close>, which is \<open>None\<close> here. Numbers are restricted to integers: the
  code only tests them for truthiness and copies them. A string is a list of code
  units. Members inherited from a prototype (\<^verbatim>\<open>constructor\<close>, \<^verbatim>\<open>toString\<close>, ...) are
  not part of the model.
\<close>

datatype json =
    JNull
  | JBool bool
  | JNum int
  | JStr string
  | JArr "json list"
  | JObj "(string \<times> json) list"

text \<open>
  An exception ends the run of the function that raised it and of all its callers up
  to the request handler, so every function that can raise returns a sum. The model
  runs the recursive functions on fuel; \<open>OutOfFuel\<close> is not an outcome of the code.
  \<open>Error msg\<close> is \<^verbatim>\<open>new Error(msg)\<close>.

  Modelled from the spec: \<open>HttpClientError\<close>, the class of \<^verbatim>\<open>client/http-client\<close> that the
  proxy imports. The spec calls it a structured error exposing an optional nested error
  payload; the proxy reads its field \<^verbatim>\<open>data\<close>, which is the argument of the constructor
  here, \<open>None\<close> when it is \<^verbatim>\<open>undefined\<close>.
\<close>

datatype error = OutOfFuel | TypeError | Error string | HttpClientError "json option"

fun truthy :: "json \<Rightarrow> bool" where
  "truthy JNull = False"
| "truthy (JBool b) = b"
| "truthy (JNum n) = (n \<noteq> 0)"
| "truthy (JStr s) = (s \<noteq> [])"
| "truthy (JArr xs) = True"
| "truthy (JObj kvs) = True"

definition truthy_opt :: "json option \<Rightarrow> bool" where
  "truthy_opt v = (case v of None \<Rightarrow> False | Some x \<Rightarrow> truthy x)"

subsection \<open>Decimal numerals\<close>

definition digit_char :: "nat \<Rightarrow> char" where
  "digit_char d = ''0123456789'' ! (d mod 10)"

fun digits :: "nat \<Rightarrow> string" where
  "digits n = (if n < 10 then [digit_char n] else digits (n div 10) @ [digit_char (n mod 10)])"

declare digits.simps [simp del]

definition int_to_string :: "int \<Rightarrow> string" where
  "int_to_string i = (if i < 0 then CHR ''-'' # digits (nat (- i)) else digits (nat i))"

subsection \<open>Strings\<close>

definition startsWith :: "string \<Rightarrow> string \<Rightarrow> bool" where
  "startsWith s p = (take (length p) s = p)"

definition endsWith :: "string \<Rightarrow> string \<Rightarrow> bool" where
  "endsWith s p = (length p \<le> length s \<and> drop (length s - length p) s = p)"

text \<open>\<^verbatim>\<open>s.replace(/^p/, r)\<close> for a literal prefix \<open>p\<close>.\<close>

definition replace_prefix :: "string \<Rightarrow> string \<Rightarrow> string \<Rightarrow> string" where
  "replace_prefix p r s = (if startsWith s p then r @ drop (length p) s else s)"

text \<open>\<^verbatim>\<open>s.padStart(n, '0')\<close>\<close>

definition padStart :: "nat \<Rightarrow> string \<Rightarrow> string" where
  "padStart n s = replicate (n - length s) CHR ''0'' @ s"

text \<open>\<^verbatim>\<open>s.split('/')\<close>: the empty string splits into one empty segment.\<close>

fun split_on :: "char \<Rightarrow> string \<Rightarrow> string list" where
  "split_on c [] = [[]]"
| "split_on c (x # xs) =
     (if x = c then [] # split_on c xs
      else (case split_on c xs of [] \<Rightarrow> [[x]] | seg # segs \<Rightarrow> (x # seg) # segs))"

text \<open>\<^verbatim>\<open>xs.join(sep)\<close> on strings.\<close>

fun join :: "string \<Rightarrow> string list \<Rightarrow> string" where
  "join sep [] = []"
| "join sep [x] = x"
| "join sep (x # y # ys) = x @ sep @ join sep (y # ys)"

definition is_space :: "char \<Rightarrow> bool" where
  "is_space c = (c \<in> set [CHR 0x20, CHR 0x09, CHR 0x0A, CHR 0x0B, CHR 0x0C, CHR 0x0D, CHR 0xA0])"

definition trim :: "string \<Rightarrow> string" where
  "trim s = rev (dropWhile is_space (rev (dropWhile is_space s)))"

text \<open>
  String conversion of a value, as a template literal or a computed property key
  applies it.
\<close>

fun js_to_string :: "json \<Rightarrow> string" where
  "js_to_string JNull = ''null''"
| "js_to_string (JBool b) = (if b then ''true'' else ''false'')"
| "js_to_string (JNum n) = int_to_string n"
| "js_to_string (JStr s) = s"
| "js_to_string (JArr xs) =
     join '','' (map (\<lambda>x. case x of JNull \<Rightarrow> [] | _ \<Rightarrow> js_to_string x) xs)"
| "js_to_string (JObj kvs) = ''[object Object]''"

subsection \<open>Property access\<close>

text \<open>
  \<^verbatim>\<open>o[k]\<close>: an own property of an object, an element or the length of an array or of
  a string; \<^verbatim>\<open>undefined\<close> on a number or a boolean.
\<close>

definition index_of :: "nat \<Rightarrow> string \<Rightarrow> nat option" where
  "index_of n k = (case filter (\<lambda>i. digits i = k) [0..<n] of [] \<Rightarrow> None | i # _ \<Rightarrow> Some i)"

fun js_get :: "json \<Rightarrow> string \<Rightarrow> json option" where
  "js_get (JObj kvs) k = map_of kvs k"
| "js_get (JArr xs) k =
     (if k = ''length'' then Some (JNum (int (length xs)))
      else map_option (\<lambda>i. xs ! i) (index_of (length xs) k))"
| "js_get (JStr s) k =
     (if k = ''length'' then Some (JNum (int (length s)))
      else map_option (\<lambda>i. JStr [s ! i]) (index_of (length s) k))"
| "js_get v k = None"

text \<open>\<^verbatim>\<open>k in o\<close> raises on a value that is not an object.\<close>

fun js_in :: "string \<Rightarrow> json \<Rightarrow> error + bool" where
  "js_in k (JObj kvs) = Inr (map_of kvs k \<noteq> None)"
| "js_in k (JArr xs) = Inr (js_get (JArr xs) k \<noteq> None)"
| "js_in k v = Inl TypeError"

text \<open>
  \<^verbatim>\<open>o[k] = v\<close> on a plain object: an existing entry keeps its place, a new one goes
  last. Assigning to \<^verbatim>\<open>__proto__\<close> runs the inherited setter and creates no entry.
\<close>

definition obj_set :: "string \<Rightarrow> json \<Rightarrow> (string \<times> json) list \<Rightarrow> (string \<times> json) list" where
  "obj_set k v kvs = (if k = ''__proto__'' then kvs else AList.update k v kvs)"

text \<open>\<^verbatim>\<open>Object.entries(v)\<close> of a value that is not \<^verbatim>\<open>null\<close>.\<close>

fun object_entries :: "json \<Rightarrow> (string \<times> json) list" where
  "object_entries (JObj kvs) = kvs"
| "object_entries (JArr xs) = zip (map digits [0..<length xs]) xs"
| "object_entries (JStr s) = zip (map digits [0..<length s]) (map (\<lambda>c. JStr [c]) s)"
| "object_entries v = []"

section \<open>Tool names\<close>

text \<open>
  The converter object holds the document, the translation cache and the counter of
  \<^verbatim>\<open>generateUniqueSuffix\<close>.
\<close>

record converter =
  openApiSpec :: json
  schemaCache :: "(string \<times> json) list"
  nameCounter :: nat

definition generateUniqueSuffix :: "converter \<Rightarrow> string \<times> converter" where
  "generateUniqueSuffix c =
     (let c' = c\<lparr>nameCounter := nameCounter c + 1\<rparr>
      in (padStart 4 (digits (nameCounter c')), c'))"

definition ensureUniqueName :: "string \<Rightarrow> converter \<Rightarrow> string \<times> converter" where
  "ensureUniqueName name c =
     (if length name \<le> 64 then (name, c)
      else (let truncatedName = take (64 - 5) name;
                (uniqueSuffix, c') = generateUniqueSuffix c
            in (truncatedName @ ''-'' @ uniqueSuffix, c')))"

text \<open>\<^verbatim>\<open>truncateToolName\<close> of the proxy.\<close>

definition truncateToolName :: "string \<Rightarrow> string" where
  "truncateToolName name = (if length name \<le> 64 then name else take 64 name)"

section \<open>Schema translation\<close>

text \<open>
  \<^verbatim>\<open>internalResolveRef\<close> walks the document along the segments of a pointer. The set of
  pointers resolved so far is passed by reference in the source; here it is returned.
\<close>

fun resolve_parts :: "json \<Rightarrow> string list \<Rightarrow> json option" where
  "resolve_parts current [] = Some current"
| "resolve_parts current (part # parts) =
     (case js_get current part of
        None \<Rightarrow> None
      | Some v \<Rightarrow> if truthy v then resolve_parts v parts else None)"

definition internalResolveRef :: "converter \<Rightarrow> string \<Rightarrow> string set \<Rightarrow> json option \<times> string set" where
  "internalResolveRef this ref resolvedRefs =
     (if \<not> startsWith ref ''#/'' then (None, resolvedRefs)
      else if ref \<in> resolvedRefs then (None, resolvedRefs)
      else (case resolve_parts (openApiSpec this) (split_on CHR ''/'' (replace_prefix ''#/'' [] ref)) of
              None \<Rightarrow> (None, resolvedRefs)
            | Some current \<Rightarrow> (Some current, insert ref resolvedRefs)))"

text \<open>
  The translator changes two pieces of state: the set \<^verbatim>\<open>resolvedRefs\<close> it is given and
  the cache of the converter. A translation step takes and returns both.
\<close>

type_synonym tstate = "string set \<times> converter"
type_synonym translator = "json \<Rightarrow> tstate \<Rightarrow> error + (json \<times> tstate)"

definition then_do :: "error + 'a \<Rightarrow> ('a \<Rightarrow> error + 'b) \<Rightarrow> error + 'b" where
  "then_do r f = (case r of Inl e \<Rightarrow> Inl e | Inr x \<Rightarrow> f x)"

text \<open>\<^verbatim>\<open>xs.map((s) => convert(s, ...))\<close>, left to right.\<close>

fun map_tr :: "translator \<Rightarrow> json list \<Rightarrow> tstate \<Rightarrow> error + (json list \<times> tstate)" where
  "map_tr conv [] st = Inr ([], st)"
| "map_tr conv (x # xs) st =
     then_do (conv x st) (\<lambda>(y, st').
       then_do (map_tr conv xs st') (\<lambda>(ys, st''). Inr (y # ys, st'')))"

text \<open>\<^verbatim>\<open>for (const [name, propSchema] of entries) target[name] = convert(propSchema, ...)\<close>\<close>

fun props_tr :: "translator \<Rightarrow> (string \<times> json) list \<Rightarrow> (string \<times> json) list \<Rightarrow> tstate
    \<Rightarrow> error + ((string \<times> json) list \<times> tstate)" where
  "props_tr conv [] target st = Inr (target, st)"
| "props_tr conv ((name, propSchema) # rest) target st =
     then_do (conv propSchema st) (\<lambda>(v, st'). props_tr conv rest (obj_set name v target) st')"

definition copy_if_truthy :: "string \<Rightarrow> json \<Rightarrow> (string \<times> json) list \<Rightarrow> (string \<times> json) list" where
  "copy_if_truthy k schema result =
     (case js_get schema k of
        Some v \<Rightarrow> if truthy v then obj_set k v result else result
      | None \<Rightarrow> result)"

definition copy_if_defined :: "string \<Rightarrow> json \<Rightarrow> (string \<times> json) list \<Rightarrow> (string \<times> json) list" where
  "copy_if_defined k schema result =
     (case js_get schema k of Some v \<Rightarrow> obj_set k v result | None \<Rightarrow> result)"

definition binaryDesc :: string where
  "binaryDesc = ''absolute paths to local files''"

text \<open>Lines 97 to 128 of the source: the fields that need no recursion.\<close>

definition inline_fields :: "json \<Rightarrow> (string \<times> json) list" where
  "inline_fields schema =
     (let result = copy_if_truthy ''type'' schema [];
          result =
            (if js_get schema ''format'' = Some (JStr ''binary'') then
               obj_set ''description''
                 (JStr (case js_get schema ''description'' of
                          Some d \<Rightarrow> if truthy d then js_to_string d @ '' ('' @ binaryDesc @ '')'' else binaryDesc
                        | None \<Rightarrow> binaryDesc))
                 (obj_set ''format'' (JStr ''uri-reference'') result)
             else copy_if_truthy ''description'' schema (copy_if_truthy ''format'' schema result));
          result = copy_if_truthy ''enum'' schema result;
          result = copy_if_defined ''const'' schema result;
          result = copy_if_defined ''default'' schema result
      in result)"

definition is_object :: "json \<Rightarrow> bool" where
  "is_object v = (case v of JObj _ \<Rightarrow> True | JArr _ \<Rightarrow> True | _ \<Rightarrow> False)"

text \<open>Lines 131 to 149: an object schema.\<close>

definition object_part :: "translator \<Rightarrow> json \<Rightarrow> (string \<times> json) list \<Rightarrow> tstate
    \<Rightarrow> error + ((string \<times> json) list \<times> tstate)" where
  "object_part conv schema result st =
     (if js_get schema ''type'' = Some (JStr ''object'') then
        then_do
          (let result = obj_set ''type'' (JStr ''object'') result in
           case js_get schema ''properties'' of
             Some props \<Rightarrow>
               if truthy props then
                 then_do (props_tr conv (object_entries props) [] st)
                   (\<lambda>(ps, st'). Inr (obj_set ''properties'' (JObj ps) result, st'))
               else Inr (result, st)
           | None \<Rightarrow> Inr (result, st))
          (\<lambda>(result, st).
             let result = copy_if_truthy ''required'' schema result in
             case js_get schema ''additionalProperties'' of
               None \<Rightarrow> Inr (obj_set ''additionalProperties'' (JBool True) result, st)
             | Some ap \<Rightarrow>
                 if ap = JBool True then Inr (obj_set ''additionalProperties'' (JBool True) result, st)
                 else if truthy ap \<and> is_object ap then
                   then_do (conv ap st) (\<lambda>(v, st'). Inr (obj_set ''additionalProperties'' v result, st'))
                 else Inr (obj_set ''additionalProperties'' (JBool False) result, st))
      else Inr (result, st))"

text \<open>Lines 152 to 155: an array schema.\<close>

definition array_part :: "translator \<Rightarrow> json \<Rightarrow> (string \<times> json) list \<Rightarrow> tstate
    \<Rightarrow> error + ((string \<times> json) list \<times> tstate)" where
  "array_part conv schema result st =
     (case js_get schema ''items'' of
        Some items \<Rightarrow>
          if js_get schema ''type'' = Some (JStr ''array'') \<and> truthy items then
            then_do (conv items st)
              (\<lambda>(v, st'). Inr (obj_set ''items'' v (obj_set ''type'' (JStr ''array'') result), st'))
          else Inr (result, st)
      | None \<Rightarrow> Inr (result, st))"

text \<open>Lines 158 to 166: \<^verbatim>\<open>oneOf\<close>, \<^verbatim>\<open>anyOf\<close>, \<^verbatim>\<open>allOf\<close>; \<^verbatim>\<open>.map\<close> exists on arrays only.\<close>

definition composite_part :: "string \<Rightarrow> translator \<Rightarrow> json \<Rightarrow> (string \<times> json) list \<Rightarrow> tstate
    \<Rightarrow> error + ((string \<times> json) list \<times> tstate)" where
  "composite_part k conv schema result st =
     (case js_get schema k of
        Some members \<Rightarrow>
          if truthy members then
            (case members of
               JArr xs \<Rightarrow> then_do (map_tr conv xs st) (\<lambda>(ys, st'). Inr (obj_set k (JArr ys) result, st'))
             | _ \<Rightarrow> Inl TypeError)
          else Inr (result, st)
      | None \<Rightarrow> Inr (result, st))"

definition convert_inline :: "translator \<Rightarrow> json \<Rightarrow> tstate \<Rightarrow> error + (json \<times> tstate)" where
  "convert_inline conv schema st =
     then_do (object_part conv schema (inline_fields schema) st) (\<lambda>(result, st).
     then_do (array_part conv schema result st) (\<lambda>(result, st).
     then_do (composite_part ''oneOf'' conv schema result st) (\<lambda>(result, st).
     then_do (composite_part ''anyOf'' conv schema result st) (\<lambda>(result, st).
     then_do (composite_part ''allOf'' conv schema result st) (\<lambda>(result, st).
       Inr (JObj result, st))))))"

definition local_ref :: "string \<Rightarrow> string" where
  "local_ref ref = replace_prefix ''#/components/schemas/'' ''#/$defs/'' ref"

text \<open>
  Lines 57 to 94: a reference. A \<^verbatim>\<open>$ref\<close> that is not a string has no
  \<^verbatim>\<open>startsWith\<close>. The object \<^verbatim>\<open>refSchema\<close> of lines 70 to 73 is never read.
\<close>

definition convert_ref :: "translator \<Rightarrow> json \<Rightarrow> bool \<Rightarrow> tstate \<Rightarrow> error + (json \<times> tstate)" where
  "convert_ref conv schema resolveRefs st =
     (case js_get schema ''$ref'' of
        Some (JStr ref) \<Rightarrow>
          if \<not> resolveRefs \<and> startsWith ref ''#/components/schemas/'' then
            Inr (JObj ((''$ref'', JStr (local_ref ref)) #
                       (case js_get schema ''description'' of
                          Some d \<Rightarrow> [(''description'', d)]
                        | None \<Rightarrow> [])), st)
          else
            (let miss =
               (case internalResolveRef (snd st) ref (fst st) of
                  (None, resolvedRefs) \<Rightarrow>
                    Inr (JObj [(''$ref'', JStr (local_ref ref)),
                               (''description'',
                                 (case js_get schema ''description'' of
                                    Some JNull \<Rightarrow> JStr []
                                  | Some d \<Rightarrow> d
                                  | None \<Rightarrow> JStr []))],
                         (resolvedRefs, snd st))
                | (Some resolved, resolvedRefs) \<Rightarrow>
                    then_do (conv resolved (resolvedRefs, snd st)) (\<lambda>(converted, (resolvedRefs', this')).
                      Inr (converted,
                           (resolvedRefs', this'\<lparr>schemaCache := obj_set ref converted (schemaCache this')\<rparr>))))
             in case map_of (schemaCache (snd st)) ref of
                  Some cached \<Rightarrow> if truthy cached then Inr (cached, st) else miss
                | None \<Rightarrow> miss)
      | _ \<Rightarrow> Inl TypeError)"

fun convertOpenApiSchemaToJsonSchema :: "nat \<Rightarrow> json \<Rightarrow> bool \<Rightarrow> tstate \<Rightarrow> error + (json \<times> tstate)" where
  "convertOpenApiSchemaToJsonSchema 0 schema resolveRefs st = Inl OutOfFuel"
| "convertOpenApiSchemaToJsonSchema (Suc n) schema resolveRefs st =
     (case js_in ''$ref'' schema of
        Inl e \<Rightarrow> Inl e
      | Inr True \<Rightarrow>
          convert_ref (\<lambda>s. convertOpenApiSchemaToJsonSchema n s resolveRefs) schema resolveRefs st
      | Inr False \<Rightarrow>
          convert_inline (\<lambda>s. convertOpenApiSchemaToJsonSchema n s resolveRefs) schema st)"

section \<open>Tool synthesis\<close>

text \<open>
  \<^verbatim>\<open>withStringFallback\<close>. The object spread copies the entries of the schema; the key
  \<^verbatim>\<open>items\<close> written after it replaces the value of the entry in place.
\<close>

definition string_schema :: json where
  "string_schema = JObj [(''type'', JStr ''string'')]"

definition withStringFallback :: "json \<Rightarrow> error + json" where
  "withStringFallback schema =
     (if js_get schema ''type'' = Some (JStr ''object'') then
        Inr (JObj [(''anyOf'', JArr [schema, string_schema])])
      else
        then_do (js_in ''$ref'' schema) (\<lambda>has_ref.
        then_do (js_in ''anyOf'' schema) (\<lambda>has_anyOf.
        then_do (js_in ''oneOf'' schema) (\<lambda>has_oneOf.
        then_do (js_in ''allOf'' schema) (\<lambda>has_allOf.
          if has_ref \<or> has_anyOf \<or> has_oneOf \<or> has_allOf then
            Inr (JObj [(''anyOf'', JArr [schema, string_schema])])
          else
            (case js_get schema ''items'' of
               Some items \<Rightarrow>
                 if js_get schema ''type'' = Some (JStr ''array'') \<and> truthy items then
                   Inr (JObj (AList.update ''items''
                     (JObj [(''anyOf'', JArr [items, string_schema,
                        JObj [(''type'', JStr ''object''), (''additionalProperties'', JBool True)]])])
                     (object_entries schema)))
                 else Inr schema
             | None \<Rightarrow> Inr schema))))))"

text \<open>A translation that starts from \<^verbatim>\<open>new Set()\<close>.\<close>

definition convert_fresh :: "nat \<Rightarrow> json \<Rightarrow> converter \<Rightarrow> error + (json \<times> converter)" where
  "convert_fresh n schema this =
     then_do (convertOpenApiSchemaToJsonSchema n schema False ({}, this))
       (\<lambda>(v, (resolvedRefs, this')). Inr (v, this'))"

definition or_empty :: "json option \<Rightarrow> json" where
  "or_empty v = (case v of Some x \<Rightarrow> if truthy x then x else JObj [] | None \<Rightarrow> JObj [])"

fun components_loop :: "nat \<Rightarrow> (string \<times> json) list \<Rightarrow> (string \<times> json) list \<Rightarrow> converter
    \<Rightarrow> error + ((string \<times> json) list \<times> converter)" where
  "components_loop n [] schema this = Inr (schema, this)"
| "components_loop n ((key, v) # rest) schema this =
     then_do (convert_fresh n v this)
       (\<lambda>(converted, this'). components_loop n rest (obj_set key converted schema) this')"

definition convertComponentsToJsonSchema :: "nat \<Rightarrow> converter \<Rightarrow> error + ((string \<times> json) list \<times> converter)" where
  "convertComponentsToJsonSchema n this =
     (let components = or_empty (js_get (openApiSpec this) ''components'')
      in components_loop n (object_entries (or_empty (js_get components ''schemas''))) [] this)"

text \<open>
  \<^verbatim>\<open>resolveParameter\<close>, \<^verbatim>\<open>resolveRequestBody\<close>, \<^verbatim>\<open>resolveResponse\<close>: each resolves with a
  set of its own and returns \<^verbatim>\<open>null\<close>, here \<open>None\<close>, when it finds nothing.
\<close>

definition resolve_with :: "(json \<Rightarrow> bool) \<Rightarrow> converter \<Rightarrow> json \<Rightarrow> error + json option" where
  "resolve_with accept this node =
     then_do (js_in ''$ref'' node) (\<lambda>is_ref.
       if \<not> is_ref then Inr (Some node)
       else (case js_get node ''$ref'' of
               Some (JStr ref) \<Rightarrow>
                 (case fst (internalResolveRef this ref {}) of
                    Some resolved \<Rightarrow> Inr (if accept resolved then Some resolved else None)
                  | None \<Rightarrow> Inr None)
             | _ \<Rightarrow> Inl TypeError))"

definition resolveParameter :: "converter \<Rightarrow> json \<Rightarrow> error + json option" where
  "resolveParameter = resolve_with (\<lambda>resolved. truthy_opt (js_get resolved ''name''))"

definition resolveRequestBody :: "converter \<Rightarrow> json \<Rightarrow> error + json option" where
  "resolveRequestBody = resolve_with (\<lambda>resolved. True)"

definition resolveResponse :: "converter \<Rightarrow> json \<Rightarrow> error + json option" where
  "resolveResponse = resolve_with (\<lambda>resolved. True)"

text \<open>\<^verbatim>\<open>o.k = v\<close> on the object a translation returned.\<close>

definition json_set :: "string \<Rightarrow> json \<Rightarrow> json \<Rightarrow> error + json" where
  "json_set k v j = (case j of JObj kvs \<Rightarrow> Inr (JObj (obj_set k v kvs)) | _ \<Rightarrow> Inl TypeError)"

text \<open>\<^verbatim>\<open>for (const x of v)\<close> and \<^verbatim>\<open>...v\<close> in an argument list.\<close>

definition js_iterate :: "json \<Rightarrow> error + json list" where
  "js_iterate v = (case v of JArr xs \<Rightarrow> Inr xs | JStr s \<Rightarrow> Inr (map (\<lambda>c. JStr [c]) s) | _ \<Rightarrow> Inl TypeError)"

text \<open>\<^verbatim>\<open>a?.k\<close>\<close>

definition opt_get :: "json option \<Rightarrow> string \<Rightarrow> json option" where
  "opt_get v k = (case v of None \<Rightarrow> None | Some JNull \<Rightarrow> None | Some x \<Rightarrow> js_get x k)"

definition or_else :: "json option \<Rightarrow> json option \<Rightarrow> json option" where
  "or_else a b = (if truthy_opt a then a else b)"

definition or_blank :: "json option \<Rightarrow> json" where
  "or_blank v = (case v of Some x \<Rightarrow> if truthy x then x else JStr [] | None \<Rightarrow> JStr [])"

text \<open>Lines 526 to 536: the schema of a JSON response.\<close>

definition json_return_schema :: "nat \<Rightarrow> json \<Rightarrow> json option \<Rightarrow> converter \<Rightarrow> error + (json \<times> converter)" where
  "json_return_schema n schema description this =
     then_do (convert_fresh n schema this) (\<lambda>(returnSchema, this1).
     then_do (convertComponentsToJsonSchema n this1) (\<lambda>(defs, this2).
     then_do (json_set ''$defs'' (JObj defs) returnSchema) (\<lambda>returnSchema.
     then_do
       (if truthy_opt description \<and> \<not> truthy_opt (js_get returnSchema ''description'')
        then json_set ''description'' (or_blank description) returnSchema
        else Inr returnSchema)
       (\<lambda>returnSchema. Inr (returnSchema, this2)))))"

text \<open>Lines 538 to 544: a response without a JSON schema.\<close>

definition placeholder_schema :: "json \<Rightarrow> json option \<Rightarrow> json" where
  "placeholder_schema content description =
     (if truthy_opt (or_else (js_get content ''image/png'') (js_get content ''image/jpeg'')) then
        JObj [(''type'', JStr ''string''), (''format'', JStr ''binary''), (''description'', or_blank description)]
      else JObj [(''type'', JStr ''string''), (''description'', or_blank description)])"

definition extractResponseType :: "nat \<Rightarrow> json option \<Rightarrow> converter \<Rightarrow> error + (json option \<times> converter)" where
  "extractResponseType n responses this =
     (let successResponse =
            or_else (opt_get responses ''200'') (or_else (opt_get responses ''201'')
              (or_else (opt_get responses ''202'') (opt_get responses ''204'')))
      in case successResponse of
           None \<Rightarrow> Inr (None, this)
         | Some sr \<Rightarrow>
             if \<not> truthy sr then Inr (None, this)
             else
               then_do (resolveResponse this sr) (\<lambda>responseObj.
                 case responseObj of
                   None \<Rightarrow> Inr (None, this)
                 | Some ro \<Rightarrow>
                     (case js_get ro ''content'' of
                        None \<Rightarrow> Inr (None, this)
                      | Some content \<Rightarrow>
                          if \<not> truthy content then Inr (None, this)
                          else
                            (let description = js_get ro ''description'';
                                 jsonSchema = opt_get (js_get content ''application/json'') ''schema''
                             in case jsonSchema of
                                  Some schema \<Rightarrow>
                                    if truthy schema then
                                      then_do (json_return_schema n schema description this)
                                        (\<lambda>(returnSchema, this'). Inr (Some returnSchema, this'))
                                    else Inr (Some (placeholder_schema content description), this)
                                | None \<Rightarrow> Inr (Some (placeholder_schema content description), this)))))"

text \<open>\<^verbatim>\<open>NewToolMethod\<close>\<close>

record tool =
  tool_name :: string
  tool_description :: string
  inputSchema :: json
  returnSchema :: "json option"

text \<open>
  The loops of \<^verbatim>\<open>convertOperationToMCPMethod\<close> fill \<^verbatim>\<open>inputSchema.properties\<close> and
  \<^verbatim>\<open>inputSchema.required\<close>; the record below is these two and the converter.
\<close>

record building =
  properties :: "(string \<times> json) list"
  required :: "json list"
  self :: converter

fun for_each :: "('a \<Rightarrow> 's \<Rightarrow> error + 's) \<Rightarrow> 'a list \<Rightarrow> 's \<Rightarrow> error + 's" where
  "for_each body [] s = Inr s"
| "for_each body (x # xs) s = then_do (body x s) (for_each body xs)"

fun map_res :: "('a \<Rightarrow> error + 'b) \<Rightarrow> 'a list \<Rightarrow> error + 'b list" where
  "map_res f [] = Inr []"
| "map_res f (x # xs) = then_do (f x) (\<lambda>y. then_do (map_res f xs) (\<lambda>ys. Inr (y # ys)))"

definition value_or_undefined :: "json option \<Rightarrow> json" where
  "value_or_undefined v = (case v of Some x \<Rightarrow> x | None \<Rightarrow> JNull)"

definition key_string :: "json option \<Rightarrow> string" where
  "key_string v = (case v of Some x \<Rightarrow> js_to_string x | None \<Rightarrow> ''undefined'')"

text \<open>
  Lines 385 to 398: one parameter. The description is written onto the object that
  the translator returned. That object is new, except for a reference outside
  \<^verbatim>\<open>#/components/schemas/\<close> that is resolved in place, whose translation is the cache
  entry itself: there the write of the code also shows in the cache and in the
  schemas built from the entry before, which are values of their own here.
\<close>

definition parameter_step :: "nat \<Rightarrow> json \<Rightarrow> building \<Rightarrow> error + building" where
  "parameter_step n param b =
     then_do (resolveParameter (self b) param) (\<lambda>paramObj.
       case paramObj of
         None \<Rightarrow> Inr b
       | Some po \<Rightarrow>
           (case js_get po ''schema'' of
              None \<Rightarrow> Inr b
            | Some pschema \<Rightarrow>
                if \<not> truthy pschema then Inr b
                else
                  then_do (convert_fresh n pschema (self b)) (\<lambda>(schema, this').
                  then_do
                    (case js_get po ''description'' of
                       Some d \<Rightarrow> if truthy d then json_set ''description'' d schema else Inr schema
                     | None \<Rightarrow> Inr schema) (\<lambda>schema.
                  then_do (withStringFallback schema) (\<lambda>wrapped.
                    Inr (b\<lparr>properties := obj_set (key_string (js_get po ''name'')) wrapped (properties b),
                           required := (if truthy_opt (js_get po ''required'')
                                        then required b @ [value_or_undefined (js_get po ''name'')]
                                        else required b),
                           self := this'\<rparr>))))))"

text \<open>Lines 410 to 417 and 423 to 429: the properties of an object body.\<close>

definition merge_properties :: "json \<Rightarrow> building \<Rightarrow> error + building" where
  "merge_properties bodySchema b =
     then_do (for_each (\<lambda>(name, propSchema) props.
                 then_do (withStringFallback propSchema) (\<lambda>wrapped. Inr (obj_set name wrapped props)))
               (object_entries (value_or_undefined (js_get bodySchema ''properties''))) (properties b))
       (\<lambda>props.
          case js_get bodySchema ''required'' of
            Some r \<Rightarrow>
              if truthy r then then_do (js_iterate r) (\<lambda>rs. Inr (b\<lparr>properties := props, required := required b @ rs\<rparr>))
              else Inr (b\<lparr>properties := props\<rparr>)
          | None \<Rightarrow> Inr (b\<lparr>properties := props\<rparr>))"

definition object_with_properties :: "json \<Rightarrow> bool" where
  "object_with_properties schema =
     (js_get schema ''type'' = Some (JStr ''object'') \<and> truthy_opt (js_get schema ''properties''))"

text \<open>Lines 402 to 437: the request body.\<close>

definition request_body_step :: "nat \<Rightarrow> json \<Rightarrow> building \<Rightarrow> error + building" where
  "request_body_step n requestBody b =
     then_do (resolveRequestBody (self b) requestBody) (\<lambda>bodyObj.
       case opt_get bodyObj ''content'' of
         None \<Rightarrow> Inr b
       | Some content \<Rightarrow>
           if \<not> truthy content then Inr b
           else if truthy_opt (opt_get (js_get content ''multipart/form-data'') ''schema'') then
             then_do (convert_fresh n (value_or_undefined (opt_get (js_get content ''multipart/form-data'') ''schema'')) (self b))
               (\<lambda>(formSchema, this').
                  if object_with_properties formSchema then merge_properties formSchema (b\<lparr>self := this'\<rparr>)
                  else Inr (b\<lparr>self := this'\<rparr>))
           else if truthy_opt (opt_get (js_get content ''application/json'') ''schema'') then
             then_do (convert_fresh n (value_or_undefined (opt_get (js_get content ''application/json'') ''schema'')) (self b))
               (\<lambda>(bodySchema, this').
                  if object_with_properties bodySchema then merge_properties bodySchema (b\<lparr>self := this'\<rparr>)
                  else
                    then_do (withStringFallback bodySchema) (\<lambda>wrapped.
                      Inr (b\<lparr>properties := obj_set ''body'' wrapped (properties b),
                             required := required b @ [JStr ''body''],
                             self := this'\<rparr>)))
           else Inr b)"

text \<open>Lines 440 to 453: the description and the error responses.\<close>

definition error_responses :: "converter \<Rightarrow> json \<Rightarrow> error + string list" where
  "error_responses this responses =
     map_res (\<lambda>(code, response).
         then_do (resolveResponse this response) (\<lambda>responseObj.
           Inr (code @ '': '' @ js_to_string (or_blank (opt_get responseObj ''description'')))))
       (filter (\<lambda>(code, response). startsWith code ''4'' \<or> startsWith code ''5'') (object_entries responses))"

definition build_description :: "converter \<Rightarrow> json \<Rightarrow> error + string" where
  "build_description this operation =
     (let description = js_to_string (or_blank (or_else (js_get operation ''summary'') (js_get operation ''description'')))
      in case js_get operation ''responses'' of
           None \<Rightarrow> Inr description
         | Some responses \<Rightarrow>
             if \<not> truthy responses then Inr description
             else then_do (error_responses this responses) (\<lambda>errorResponses.
                    if length errorResponses > 0
                    then Inr (description @ [CHR 0x0A] @ ''Error Responses:'' @ [CHR 0x0A] @ join [CHR 0x0A] errorResponses)
                    else Inr description))"

text \<open>
  \<^verbatim>\<open>convertOperationToMCPMethod\<close>. Reading \<^verbatim>\<open>operationId\<close> off \<^verbatim>\<open>null\<close> raises. An
  \<^verbatim>\<open>operationId\<close> that is truthy and not a string is outside the type of the document;
  \<^verbatim>\<open>ensureUniqueName\<close> raises on it for want of \<^verbatim>\<open>slice\<close> unless it is an array or has a
  length of its own, and the model raises for all of them.
\<close>

definition convertOperationToMCPMethod :: "nat \<Rightarrow> json \<Rightarrow> string \<Rightarrow> string \<Rightarrow> converter
    \<Rightarrow> error + (tool option \<times> converter)" where
  "convertOperationToMCPMethod n operation http_method path this =
     (if operation = JNull then Inl TypeError
      else case js_get operation ''operationId'' of
        None \<Rightarrow> Inr (None, this)
      | Some oid \<Rightarrow>
          if \<not> truthy oid then Inr (None, this)
          else (case oid of
            JStr methodName \<Rightarrow>
              then_do (convertComponentsToJsonSchema n this) (\<lambda>(defs, this1).
              then_do
                (case js_get operation ''parameters'' of
                   Some ps \<Rightarrow>
                     if truthy ps then
                       then_do (js_iterate ps) (\<lambda>params.
                         for_each (parameter_step n) params \<lparr>properties = [], required = [], self = this1\<rparr>)
                     else Inr \<lparr>properties = [], required = [], self = this1\<rparr>
                 | None \<Rightarrow> Inr \<lparr>properties = [], required = [], self = this1\<rparr>) (\<lambda>b.
              then_do
                (case js_get operation ''requestBody'' of
                   Some rb \<Rightarrow> if truthy rb then request_body_step n rb b else Inr b
                 | None \<Rightarrow> Inr b) (\<lambda>b.
              then_do (build_description (self b) operation) (\<lambda>description.
              then_do (extractResponseType n (js_get operation ''responses'') (self b)) (\<lambda>(rs, this2).
                Inr (Some \<lparr>tool_name = methodName,
                           tool_description = description,
                           inputSchema = JObj [(''$defs'', JObj defs), (''type'', JStr ''object''),
                                               (''properties'', JObj (properties b)),
                                               (''required'', JArr (required b))],
                           returnSchema = rs\<rparr>, this2))))))
          | _ \<Rightarrow> Inl TypeError))"

text \<open>\<^verbatim>\<open>toLowerCase\<close> on the letters A to Z.\<close>

definition to_lower_char :: "char \<Rightarrow> char" where
  "to_lower_char c =
     (case map_of (zip ''ABCDEFGHIJKLMNOPQRSTUVWXYZ'' ''abcdefghijklmnopqrstuvwxyz'') c of
        Some l \<Rightarrow> l
      | None \<Rightarrow> c)"

definition toLowerCase :: "string \<Rightarrow> string" where
  "toLowerCase s = map to_lower_char s"

definition isOperation :: "string \<Rightarrow> bool" where
  "isOperation http_method = (toLowerCase http_method \<in> set [''get'', ''post'', ''put'', ''delete'', ''patch''])"

definition getDescription :: "converter \<Rightarrow> string \<Rightarrow> error + string" where
  "getDescription this description =
     (case js_get (openApiSpec this) ''info'' of
        None \<Rightarrow> Inl TypeError
      | Some JNull \<Rightarrow> Inl TypeError
      | Some info \<Rightarrow>
          Inr (if js_get info ''title'' = Some (JStr ''Notion API'') then ''Notion | '' @ description
               else description))"

text \<open>
  The three results of \<^verbatim>\<open>convertToMCPTools\<close>: the methods of \<^verbatim>\<open>tools['API']\<close>, the lookup
  and \<^verbatim>\<open>zip\<close>. An entry written under a key that is already there replaces the value.
\<close>

record catalogue =
  methods :: "tool list"
  openApiLookup :: "(string \<times> json) list"
  zip_table :: "(string \<times> json \<times> tool) list"
  cat_conv :: converter

definition apiName :: string where
  "apiName = ''API''"

definition with_method_path :: "json \<Rightarrow> string \<Rightarrow> string \<Rightarrow> json" where
  "with_method_path operation http_method path =
     JObj (AList.update ''path'' (JStr path)
            (AList.update ''method'' (JStr http_method) (object_entries operation)))"

text \<open>Lines 187 to 198: one entry of a path item.\<close>

definition operation_step :: "nat \<Rightarrow> string \<Rightarrow> string \<times> json \<Rightarrow> catalogue \<Rightarrow> error + catalogue" where
  "operation_step n path entry cat =
     (case entry of (http_method, operation) \<Rightarrow>
        if \<not> isOperation http_method then Inr cat
        else
          then_do (convertOperationToMCPMethod n operation http_method path (cat_conv cat)) (\<lambda>(mcpMethod, this1).
            case mcpMethod of
              None \<Rightarrow> Inr (cat\<lparr>cat_conv := this1\<rparr>)
            | Some m \<Rightarrow>
                (case ensureUniqueName (tool_name m) this1 of (uniqueName, this2) \<Rightarrow>
                   then_do (getDescription this2 (tool_description m)) (\<lambda>description.
                     let m' = m\<lparr>tool_name := uniqueName, tool_description := description\<rparr>;
                         openApi = with_method_path operation http_method path
                     in Inr (cat\<lparr>methods := methods cat @ [m'],
                                 openApiLookup := AList.update (apiName @ ''-'' @ uniqueName) openApi (openApiLookup cat),
                                 zip_table := AList.update (apiName @ ''-'' @ uniqueName) (openApi, m') (zip_table cat),
                                 cat_conv := this2\<rparr>)))))"

definition path_step :: "nat \<Rightarrow> string \<times> json \<Rightarrow> catalogue \<Rightarrow> error + catalogue" where
  "path_step n entry cat =
     (case entry of (path, pathItem) \<Rightarrow>
        if \<not> truthy pathItem then Inr cat
        else for_each (operation_step n path) (object_entries pathItem) cat)"

definition convertToMCPTools :: "nat \<Rightarrow> converter \<Rightarrow> error + catalogue" where
  "convertToMCPTools n this =
     for_each (path_step n) (object_entries (or_empty (js_get (openApiSpec this) ''paths'')))
       \<lparr>methods = [], openApiLookup = [], zip_table = [], cat_conv = this\<rparr>"

text \<open>\<^verbatim>\<open>new OpenAPIToMCPConverter(openApiSpec)\<close>\<close>

definition new_converter :: "json \<Rightarrow> converter" where
  "new_converter spec = \<lparr>openApiSpec = spec, schemaCache = [], nameCounter = 0\<rparr>"

section \<open>Argument recovery\<close>

text \<open>
  \<^verbatim>\<open>deserializeParams\<close> of the proxy. \<^verbatim>\<open>JSON.parse\<close> belongs to the language, not to the
  repository, and is a parameter: \<open>None\<close> stands for the \<^verbatim>\<open>SyntaxError\<close> that the
  \<^verbatim>\<open>try\<close> block catches. The function recurses on what the parser returns, so it
  runs on fuel.
\<close>

definition looks_like_json :: "string \<Rightarrow> bool" where
  "looks_like_json v =
     (let trimmed = trim v
      in (startsWith trimmed ''{'' \<and> endsWith trimmed ''}'') \<or>
         (startsWith trimmed ''['' \<and> endsWith trimmed '']''))"

text \<open>
  Lines 39 to 55 and 60 to 76: what a string becomes. \<open>None\<close>: the string stays.
\<close>

definition recover_string :: "(json \<Rightarrow> error + json) \<Rightarrow> (string \<Rightarrow> json option) \<Rightarrow> string
    \<Rightarrow> error + json option" where
  "recover_string recurse parse v =
     (if looks_like_json v then
        (case parse v of
           Some parsed \<Rightarrow>
             if is_object parsed then
               (case parsed of
                  JArr xs \<Rightarrow> Inr (Some parsed)
                | _ \<Rightarrow> then_do (recurse parsed) (\<lambda>r. Inr (Some r)))
             else Inr None
         | None \<Rightarrow> Inr None)
      else Inr None)"

definition recover_item :: "(json \<Rightarrow> error + json) \<Rightarrow> (string \<Rightarrow> json option) \<Rightarrow> json \<Rightarrow> error + json" where
  "recover_item recurse parse item =
     (case item of
        JStr v \<Rightarrow> then_do (recover_string recurse parse v)
                    (\<lambda>r. Inr (case r of Some x \<Rightarrow> x | None \<Rightarrow> item))
      | _ \<Rightarrow> Inr item)"

definition recover_entry :: "(json \<Rightarrow> error + json) \<Rightarrow> (string \<Rightarrow> json option) \<Rightarrow> string \<times> json
    \<Rightarrow> (string \<times> json) list \<Rightarrow> error + (string \<times> json) list" where
  "recover_entry recurse parse entry result =
     (case entry of (key, v) \<Rightarrow>
        (case v of
           JStr str \<Rightarrow>
             then_do (recover_string recurse parse str)
               (\<lambda>r. Inr (obj_set key (case r of Some x \<Rightarrow> x | None \<Rightarrow> v) result))
         | JArr items \<Rightarrow>
             then_do (map_res (recover_item recurse parse) items)
               (\<lambda>items'. Inr (obj_set key (JArr items') result))
         | _ \<Rightarrow> Inr (obj_set key v result)))"

fun deserializeParams :: "nat \<Rightarrow> (string \<Rightarrow> json option) \<Rightarrow> json \<Rightarrow> error + json" where
  "deserializeParams 0 parse params = Inl OutOfFuel"
| "deserializeParams (Suc n) parse params =
     then_do (for_each (recover_entry (deserializeParams n parse) parse) (object_entries params) [])
       (\<lambda>result. Inr (JObj result))"

section \<open>JSON text\<close>

text \<open>
  \<^verbatim>\<open>JSON.stringify\<close> on the values of the model.
\<close>

definition hex_char :: "nat \<Rightarrow> char" where
  "hex_char d = ''0123456789abcdef'' ! (d mod 16)"

definition escape_char :: "char \<Rightarrow> string" where
  "escape_char c =
     (if c = CHR 0x22 then [CHR 0x5C, CHR 0x22]
      else if c = CHR 0x5C then [CHR 0x5C, CHR 0x5C]
      else if c = CHR 0x08 then [CHR 0x5C, CHR ''b'']
      else if c = CHR 0x0C then [CHR 0x5C, CHR ''f'']
      else if c = CHR 0x0A then [CHR 0x5C, CHR ''n'']
      else if c = CHR 0x0D then [CHR 0x5C, CHR ''r'']
      else if c = CHR 0x09 then [CHR 0x5C, CHR ''t'']
      else if (of_char c :: nat) < 32 then
        [CHR 0x5C, CHR ''u'', CHR ''0'', CHR ''0'', hex_char ((of_char c :: nat) div 16), hex_char (of_char c :: nat)]
      else [c])"

definition quote :: "string \<Rightarrow> string" where
  "quote s = [CHR 0x22] @ concat (map escape_char s) @ [CHR 0x22]"

fun JSON_stringify :: "json \<Rightarrow> string" where
  "JSON_stringify JNull = ''null''"
| "JSON_stringify (JBool b) = (if b then ''true'' else ''false'')"
| "JSON_stringify (JNum n) = int_to_string n"
| "JSON_stringify (JStr s) = quote s"
| "JSON_stringify (JArr xs) = ''['' @ join '','' (map JSON_stringify xs) @ '']''"
| "JSON_stringify (JObj kvs) =
     ''{'' @ join '','' (map (\<lambda>kv. quote (fst kv) @ '':'' @ JSON_stringify (snd kv)) kvs) @ ''}''"

text \<open>
  A parser for the JSON texts whose numbers are integers and whose \<^verbatim>\<open>\u\<close> escapes stay
  below 256. It stands in for \<^verbatim>\<open>JSON.parse\<close> where a theorem is applied to a concrete
  argument; the theorems themselves hold for every parser. Each call uses up a unit
  of fuel, and a text of length \<open>n\<close> is parsed with \<open>2 * n + 2\<close> units.
\<close>

definition json_space :: "char \<Rightarrow> bool" where
  "json_space c = (c \<in> set [CHR 0x20, CHR 0x09, CHR 0x0A, CHR 0x0D])"

definition skip_ws :: "string \<Rightarrow> string" where
  "skip_ws s = dropWhile json_space s"

definition hex_value :: "char \<Rightarrow> nat option" where
  "hex_value c =
     map_of (zip ''0123456789abcdefABCDEF'' [0, 1, 2, 3, 4, 5, 6, 7, 8, 9, 10, 11, 12, 13, 14, 15, 10, 11, 12, 13, 14, 15]) c"

definition unescape :: "char \<Rightarrow> char option" where
  "unescape c =
     map_of [(CHR 0x22, CHR 0x22), (CHR 0x5C, CHR 0x5C), (CHR ''/'', CHR ''/''), (CHR ''b'', CHR 0x08),
             (CHR ''f'', CHR 0x0C), (CHR ''n'', CHR 0x0A), (CHR ''r'', CHR 0x0D), (CHR ''t'', CHR 0x09)] c"

text \<open>The rest of a string literal after its opening quote.\<close>

fun parse_string :: "string \<Rightarrow> string \<Rightarrow> (string \<times> string) option" where
  "parse_string [] acc = None"
| "parse_string (c # cs) acc =
     (if c = CHR 0x22 then Some (rev acc, cs)
      else if c = CHR 0x5C then
        (case cs of
           [] \<Rightarrow> None
         | e # cs' \<Rightarrow>
             if e = CHR ''u'' then
               (case cs' of
                  a # b # x # y # cs'' \<Rightarrow>
                    (case (hex_value a, hex_value b, hex_value x, hex_value y) of
                       (Some 0, Some 0, Some h, Some l) \<Rightarrow> parse_string cs'' (char_of (16 * h + l) # acc)
                     | _ \<Rightarrow> None)
                | _ \<Rightarrow> None)
             else (case unescape e of Some u \<Rightarrow> parse_string cs' (u # acc) | None \<Rightarrow> None))
      else if (of_char c :: nat) < 32 then None
      else parse_string cs (c # acc))"

definition is_digit :: "char \<Rightarrow> bool" where
  "is_digit c = (c \<in> set ''0123456789'')"

definition digit_value :: "char \<Rightarrow> nat" where
  "digit_value c = (case hex_value c of Some d \<Rightarrow> d | None \<Rightarrow> 0)"

definition decimal_value :: "string \<Rightarrow> nat" where
  "decimal_value ds = foldl (\<lambda>acc c. 10 * acc + digit_value c) 0 ds"

text \<open>An integer literal: no leading zero, no fraction, no exponent.\<close>

definition parse_number :: "string \<Rightarrow> (json \<times> string) option" where
  "parse_number s =
     (let negative = (s \<noteq> [] \<and> hd s = CHR ''-'');
          body = (if negative then tl s else s);
          ds = takeWhile is_digit body;
          rest = dropWhile is_digit body
      in if ds = [] \<or> (length ds > 1 \<and> hd ds = CHR ''0'') then None
         else if rest \<noteq> [] \<and> hd rest \<in> set ''.eE'' then None
         else Some (JNum (if negative then - int (decimal_value ds) else int (decimal_value ds)), rest))"

fun parse_value :: "nat \<Rightarrow> string \<Rightarrow> (json \<times> string) option"
  and parse_elements :: "nat \<Rightarrow> string \<Rightarrow> json list \<Rightarrow> (json \<times> string) option"
  and parse_members :: "nat \<Rightarrow> string \<Rightarrow> (string \<times> json) list \<Rightarrow> (json \<times> string) option"
where
  "parse_value 0 s = None"
| "parse_value (Suc n) s =
     (case skip_ws s of
        [] \<Rightarrow> None
      | c # cs \<Rightarrow>
          if c = CHR ''{'' then
            (case skip_ws cs of
               [] \<Rightarrow> None
             | d # ds \<Rightarrow> if d = CHR ''}'' then Some (JObj [], ds) else parse_members n cs [])
          else if c = CHR ''['' then
            (case skip_ws cs of
               [] \<Rightarrow> None
             | d # ds \<Rightarrow> if d = CHR '']'' then Some (JArr [], ds) else parse_elements n cs [])
          else if c = CHR 0x22 then map_option (\<lambda>(str, rest). (JStr str, rest)) (parse_string cs [])
          else if startsWith (c # cs) ''true'' then Some (JBool True, drop 4 (c # cs))
          else if startsWith (c # cs) ''false'' then Some (JBool False, drop 5 (c # cs))
          else if startsWith (c # cs) ''null'' then Some (JNull, drop 4 (c # cs))
          else parse_number (c # cs))"
| "parse_elements 0 s acc = None"
| "parse_elements (Suc n) s acc =
     (case parse_value n s of
        None \<Rightarrow> None
      | Some (v, rest) \<Rightarrow>
          (case skip_ws rest of
             [] \<Rightarrow> None
           | c # cs \<Rightarrow>
               if c = CHR '','' then parse_elements n cs (acc @ [v])
               else if c = CHR '']'' then Some (JArr (acc @ [v]), cs)
               else None))"
| "parse_members 0 s acc = None"
| "parse_members (Suc n) s acc =
     (case skip_ws s of
        [] \<Rightarrow> None
      | q # cs \<Rightarrow>
          if q \<noteq> CHR 0x22 then None
          else
            (case parse_string cs [] of
               None \<Rightarrow> None
             | Some (key, rest) \<Rightarrow>
                 (case skip_ws rest of
                    [] \<Rightarrow> None
                  | c # cs' \<Rightarrow>
                      if c \<noteq> CHR '':'' then None
                      else
                        (case parse_value n cs' of
                           None \<Rightarrow> None
                         | Some (v, rest') \<Rightarrow>
                             (case skip_ws rest' of
                                [] \<Rightarrow> None
                              | d # ds \<Rightarrow>
                                  if d = CHR '','' then parse_members n ds (AList.update key v acc)
                                  else if d = CHR ''}'' then Some (JObj (AList.update key v acc), ds)
                                  else None)))))"

definition JSON_parse :: "string \<Rightarrow> json option" where
  "JSON_parse s =
     (case parse_value (2 * length s + 2) s of
        Some (v, rest) \<Rightarrow> if skip_ws rest = [] then Some v else None
      | None \<Rightarrow> None)"

section \<open>The proxy\<close>

record MCPProxy =
  tools :: "(string \<times> tool list) list"
  lookup :: "(string \<times> json) list"

text \<open>
  The constructor of \<^verbatim>\<open>MCPProxy\<close>, up to the handlers: the base URL, then the catalogue.
  \<^verbatim>\<open>servers?.[0].url\<close> guards \<^verbatim>\<open>servers\<close> only.
\<close>

definition new_MCPProxy :: "nat \<Rightarrow> json \<Rightarrow> error + MCPProxy" where
  "new_MCPProxy n spec =
     then_do
       (case js_get spec ''servers'' of
          None \<Rightarrow> Inr None
        | Some JNull \<Rightarrow> Inr None
        | Some servers \<Rightarrow>
            (case js_get servers ''0'' of
               None \<Rightarrow> Inl TypeError
             | Some JNull \<Rightarrow> Inl TypeError
             | Some server \<Rightarrow> Inr (js_get server ''url''))) (\<lambda>baseUrl.
       if \<not> truthy_opt baseUrl then Inl (Error ''No base URL found in OpenAPI spec'')
       else
         then_do (convertToMCPTools n (new_converter spec)) (\<lambda>cat.
           Inr \<lparr>tools = [(apiName, methods cat)], lookup = openApiLookup cat\<rparr>))"

text \<open>\<^verbatim>\<open>operationIdToTitle\<close>: the two replacements, the split, the capitals.\<close>

definition is_lower :: "char \<Rightarrow> bool" where
  "is_lower c = (c \<in> set ''abcdefghijklmnopqrstuvwxyz'')"

definition is_upper :: "char \<Rightarrow> bool" where
  "is_upper c = (c \<in> set ''ABCDEFGHIJKLMNOPQRSTUVWXYZ'')"

definition to_upper_char :: "char \<Rightarrow> char" where
  "to_upper_char c =
     (case map_of (zip ''abcdefghijklmnopqrstuvwxyz'' ''ABCDEFGHIJKLMNOPQRSTUVWXYZ'') c of
        Some u \<Rightarrow> u
      | None \<Rightarrow> c)"

text \<open>\<^verbatim>\<open>.replace(/([a-z])([A-Z])/g, '$1 $2')\<close>\<close>

fun split_camel :: "string \<Rightarrow> string" where
  "split_camel (a # b # rest) =
     (if is_lower a \<and> is_upper b then a # CHR '' '' # split_camel (b # rest)
      else a # split_camel (b # rest))"
| "split_camel s = s"

text \<open>
  \<^verbatim>\<open>.replace(/([A-Z]+)([A-Z][a-z])/g, '$1 $2')\<close>: a capital that follows a capital and
  precedes a small letter gets a space before it.
\<close>

fun split_acronym :: "string \<Rightarrow> string" where
  "split_acronym (a # b # c # rest) =
     (if is_upper a \<and> is_upper b \<and> is_lower c then a # CHR '' '' # split_acronym (b # c # rest)
      else a # split_acronym (b # c # rest))"
| "split_acronym s = s"

definition is_separator :: "char \<Rightarrow> bool" where
  "is_separator c = (is_space c \<or> c = CHR ''_'' \<or> c = CHR ''-'')"

text \<open>\<^verbatim>\<open>.split(/[\s_-]+/)\<close>\<close>

fun split_words :: "string \<Rightarrow> string list" where
  "split_words [] = [[]]"
| "split_words (c # cs) =
     (if is_separator c then
        (case cs of
           [] \<Rightarrow> [] # split_words cs
         | d # ds \<Rightarrow> if is_separator d then split_words cs else [] # split_words cs)
      else (case split_words cs of [] \<Rightarrow> [[c]] | w # ws \<Rightarrow> (c # w) # ws))"

definition capitalize :: "string \<Rightarrow> string" where
  "capitalize w = (case w of [] \<Rightarrow> [] | c # cs \<Rightarrow> to_upper_char c # cs)"

definition operationIdToTitle :: "string \<Rightarrow> string" where
  "operationIdToTitle operationId =
     join '' '' (map capitalize (split_words (split_acronym (split_camel operationId))))"

text \<open>An entry of the answer to \<^verbatim>\<open>tools/list\<close>.\<close>

record listed_tool =
  listed_name :: string
  listed_description :: string
  listed_inputSchema :: json
  title :: string
  readOnlyHint :: bool
  destructiveHint :: bool

definition list_method :: "MCPProxy \<Rightarrow> string \<Rightarrow> tool \<Rightarrow> error + listed_tool" where
  "list_method proxy toolName m =
     (let toolNameWithMethod = toolName @ ''-'' @ tool_name m;
          truncatedToolName = truncateToolName toolNameWithMethod
      in then_do
           (case opt_get (map_of (lookup proxy) toolNameWithMethod) ''method'' of
              None \<Rightarrow> Inr None
            | Some JNull \<Rightarrow> Inr None
            | Some (JStr hm) \<Rightarrow> Inr (Some (toLowerCase hm))
            | Some _ \<Rightarrow> Inl TypeError) (\<lambda>httpMethod.
           let isReadOnly = (httpMethod = Some ''get'')
           in Inr \<lparr>listed_name = truncatedToolName,
                   listed_description = tool_description m,
                   listed_inputSchema = inputSchema m,
                   title = operationIdToTitle (tool_name m),
                   readOnlyHint = isReadOnly,
                   destructiveHint = (\<not> isReadOnly)\<rparr>))"

definition listTools :: "MCPProxy \<Rightarrow> error + listed_tool list" where
  "listTools proxy =
     then_do (map_res (\<lambda>(toolName, ms). map_res (list_method proxy toolName) ms) (tools proxy))
       (\<lambda>groups. Inr (concat groups))"

definition findOperation :: "MCPProxy \<Rightarrow> string \<Rightarrow> json option" where
  "findOperation proxy operationId =
     (case map_of (lookup proxy) operationId of
        None \<Rightarrow> None
      | Some JNull \<Rightarrow> None
      | Some operation \<Rightarrow> Some operation)"

text \<open>\<^verbatim>\<open>{ content: [{ type: 'text', text }] }\<close>; a text that is \<^verbatim>\<open>undefined\<close> leaves no entry.\<close>

definition text_content :: "string option \<Rightarrow> json" where
  "text_content text_opt =
     JObj [(''content'',
            JArr [JObj ((''type'', JStr ''text'') #
                        (case text_opt of Some t \<Rightarrow> [(''text'', JStr t)] | None \<Rightarrow> []))])]"

text \<open>\<^verbatim>\<open>a ?? b\<close>\<close>

definition nullish :: "json option \<Rightarrow> json option \<Rightarrow> json option" where
  "nullish a b = (case a of None \<Rightarrow> b | Some JNull \<Rightarrow> b | Some x \<Rightarrow> a)"

text \<open>Line 180: \<^verbatim>\<open>error.data?.response?.data ?? error.data ?? {}\<close>\<close>

definition error_payload :: "json option \<Rightarrow> json" where
  "error_payload error_data =
     (case nullish (opt_get (opt_get error_data ''response'') ''data'') (nullish error_data (Some (JObj []))) of
        Some d \<Rightarrow> d
      | None \<Rightarrow> JObj [])"

text \<open>An object spread writes each entry of its source as an own property.\<close>

definition spread :: "(string \<times> json) list \<Rightarrow> (string \<times> json) list \<Rightarrow> (string \<times> json) list" where
  "spread source target = fold (\<lambda>(k, v). AList.update k v) source target"

text \<open>
  The order of the own properties of an object, as \<^verbatim>\<open>JSON.stringify\<close> and a spread meet
  them: the keys that are array indices first, in ascending order, then the other
  keys in the order of their creation. An array index is the decimal numeral, without
  a leading zero, of a number below \<open>2\<^sup>3\<^sup>2 - 1\<close>, which is 4294967295.
\<close>

fun numeral_less :: "nat list \<Rightarrow> nat list \<Rightarrow> bool" where
  "numeral_less (x # xs) (y # ys) = (x < y \<or> (x = y \<and> numeral_less xs ys))"
| "numeral_less xs ys = False"

definition array_index :: "string \<Rightarrow> nat option" where
  "array_index k =
     (if k = [] \<or> \<not> list_all is_digit k then None
      else if hd k = CHR ''0'' \<and> 1 < length k then None
      else if 10 < length k then None
      else if length k = 10 \<and> \<not> numeral_less (map digit_value k) [4, 2, 9, 4, 9, 6, 7, 2, 9, 5] then None
      else Some (decimal_value k))"

definition index_key :: "string \<times> json \<Rightarrow> nat" where
  "index_key kv = (case array_index (fst kv) of Some i \<Rightarrow> i | None \<Rightarrow> 0)"

definition own_property_order :: "(string \<times> json) list \<Rightarrow> (string \<times> json) list" where
  "own_property_order kvs =
     sort_key index_key (filter (\<lambda>kv. array_index (fst kv) \<noteq> None) kvs)
     @ filter (\<lambda>kv. array_index (fst kv) = None) kvs"

text \<open>
  Lines 185 to 188: the object that is serialised for a structured error. The literal
  creates \<^verbatim>\<open>status\<close> first and the spread writes the entries of the payload after it.
\<close>

definition error_object :: "json \<Rightarrow> json" where
  "error_object d =
     JObj (own_property_order
            (spread (if is_object d then object_entries d else [(''data'', d)])
                    [(''status'', JStr ''error'')]))"

text \<open>
  The handler of \<^verbatim>\<open>tools/call\<close>. \<open>executeOperation\<close> is the HTTP client: it returns the
  \<^verbatim>\<open>data\<close> of the response or raises. \<^verbatim>\<open>params\<close> is \<open>None\<close> when the request has no
  arguments.
\<close>

definition callTool :: "nat \<Rightarrow> (string \<Rightarrow> json option) \<Rightarrow> (json \<Rightarrow> json \<Rightarrow> error + json option)
    \<Rightarrow> MCPProxy \<Rightarrow> string \<Rightarrow> json option \<Rightarrow> error + json" where
  "callTool n parse executeOperation proxy name params =
     (case findOperation proxy name of
        None \<Rightarrow> Inl (Error (''Method '' @ name @ '' not found''))
      | Some operation \<Rightarrow>
          then_do
            (case params of
               Some p \<Rightarrow> if truthy p then deserializeParams n parse p else Inr (JObj [])
             | None \<Rightarrow> Inr (JObj [])) (\<lambda>deserializedParams.
            case executeOperation operation deserializedParams of
              Inr response_data \<Rightarrow> Inr (text_content (map_option JSON_stringify response_data))
            | Inl (HttpClientError error_data) \<Rightarrow>
                Inr (text_content (Some (JSON_stringify (error_object (error_payload error_data)))))
            | Inl e \<Rightarrow> Inl e))"

section \<open>Definitions used in the statements\<close>

text \<open>
  The error object as the specification words it, \<^verbatim>\<open>{status: "error", ...errorPayload}\<close>:
  the spread of any value, which for a string is its characters and for a number or a
  boolean nothing.
\<close>

definition error_object_spec :: "json \<Rightarrow> json" where
  "error_object_spec payload =
     JObj (own_property_order (spread (object_entries payload) [(''status'', JStr ''error'')]))"

text \<open>An HTTP client whose every request fails with an \<open>HttpClientError\<close>.\<close>

definition failing_client :: "json option \<Rightarrow> json \<Rightarrow> json \<Rightarrow> error + json option" where
  "failing_client d operation args = Inl (HttpClientError d)"

definition one_tool_proxy :: MCPProxy where
  "one_tool_proxy =
     \<lparr>tools = [],
      lookup = [(''API-getTest'',
                 JObj [(''operationId'', JStr ''getTest''), (''method'', JStr ''get''), (''path'', JStr ''/test'')])]\<rparr>"

text \<open>
  The complex shapes of \<^verbatim>\<open>withStringFallback\<close>: type \<^verbatim>\<open>object\<close>, a \<^verbatim>\<open>$ref\<close>, or one of
  \<^verbatim>\<open>anyOf\<close>, \<^verbatim>\<open>oneOf\<close>, \<^verbatim>\<open>allOf\<close>; and what the items of an array become.
\<close>

definition is_complex :: "(string \<times> json) list \<Rightarrow> bool" where
  "is_complex kvs =
     (map_of kvs ''type'' = Some (JStr ''object'') \<or> map_of kvs ''$ref'' \<noteq> None \<or>
      map_of kvs ''anyOf'' \<noteq> None \<or> map_of kvs ''oneOf'' \<noteq> None \<or> map_of kvs ''allOf'' \<noteq> None)"

definition items_fallback :: "json \<Rightarrow> json" where
  "items_fallback items =
     JObj [(''anyOf'', JArr [items, JObj [(''type'', JStr ''string'')],
                            JObj [(''type'', JStr ''object''), (''additionalProperties'', JBool True)]])]"

text \<open>An operation whose JSON body is an object with the object property \<^verbatim>\<open>p\<close>.\<close>

definition body_scenario_operation :: json where
  "body_scenario_operation =
     JObj [(''operationId'', JStr ''createThing''),
           (''requestBody'',
             JObj [(''content'',
               JObj [(''application/json'',
                 JObj [(''schema'',
                   JObj [(''type'', JStr ''object''),
                         (''properties'',
                           JObj [(''p'', JObj [(''type'', JStr ''object''),
                                               (''properties'', JObj [(''x'', JObj [(''type'', JStr ''string'')])])])])])])])])]"

definition body_scenario_document :: json where
  "body_scenario_document =
     JObj [(''openapi'', JStr ''3.0.0''),
           (''info'', JObj [(''title'', JStr ''Test API''), (''version'', JStr ''1.0.0'')]),
           (''paths'', JObj [(''/things'', JObj [(''post'', body_scenario_operation)])])]"

text \<open>The property \<open>k\<close> of the input schema of the tool that a conversion returned.\<close>

definition input_property :: "string \<Rightarrow> error + (tool option \<times> converter) \<Rightarrow> json option" where
  "input_property k r =
     (case r of Inr (Some t, c) \<Rightarrow> opt_get (js_get (inputSchema t) ''properties'') k | _ \<Rightarrow> None)"

text \<open>
  Auxiliary notions for the proofs. The children of a schema are the values it holds
  and their entries: every schema that a translation step hands to the translator is
  one of them. \<open>outcome E R\<close> holds of a failure that satisfies \<open>E\<close> and of a result and
  state that satisfy \<open>R\<close>. \<open>skeys\<close> are the keys that the steps with recursion write,
  \<open>built_value\<close> the values they write.
\<close>

definition children :: "json \<Rightarrow> json set" where
  "children schema = {x. \<exists>k v. js_get schema k = Some v \<and> (x = v \<or> x \<in> snd ` set (object_entries v))}"

definition skeys :: "string set" where
  "skeys = {''type'', ''properties'', ''required'', ''additionalProperties'', ''items'', ''oneOf'', ''anyOf'', ''allOf''}"

definition built_value :: "(json \<Rightarrow> bool) \<Rightarrow> json \<Rightarrow> json \<Rightarrow> bool" where
  "built_value Q schema v =
     (Q v \<or> (\<exists>s. v = JStr s) \<or> (\<exists>b. v = JBool b) \<or> js_get schema ''required'' = Some v \<or>
      (\<exists>ps. v = JObj ps \<and> (\<forall>x \<in> snd ` set ps. Q x)) \<or>
      (\<exists>ys. v = JArr ys \<and> (\<forall>y \<in> set ys. Q y)))"

definition outcome :: "(error \<Rightarrow> bool) \<Rightarrow> ('a \<Rightarrow> 's \<Rightarrow> bool) \<Rightarrow> error + ('a \<times> 's) \<Rightarrow> bool" where
  "outcome E R r = (case r of Inl e \<Rightarrow> E e | Inr (v, s) \<Rightarrow> R v s)"

text \<open>
  The cases of the reference branch. A reference is resolved in place when the caller
  asked for it or when the pointer is outside \<^verbatim>\<open>#/components/schemas/\<close>. The cache
  misses when it has no truthy entry for the pointer. \<open>preserved_ref\<close> is the local
  reference of lines 61 to 64, \<open>placeholder\<close> the object of lines 84 to 87, and
  \<open>store\<close> the assignment of line 90.
\<close>

definition inline_mode :: "bool \<Rightarrow> string \<Rightarrow> bool" where
  "inline_mode resolveRefs ref = (resolveRefs \<or> \<not> startsWith ref ''#/components/schemas/'')"

definition cache_miss :: "converter \<Rightarrow> string \<Rightarrow> bool" where
  "cache_miss this ref = (case map_of (schemaCache this) ref of Some c \<Rightarrow> \<not> truthy c | None \<Rightarrow> True)"

definition preserved_ref :: "json \<Rightarrow> string \<Rightarrow> json" where
  "preserved_ref schema ref =
     JObj ((''$ref'', JStr (local_ref ref)) #
           (case js_get schema ''description'' of Some d \<Rightarrow> [(''description'', d)] | None \<Rightarrow> []))"

definition placeholder :: "json \<Rightarrow> string \<Rightarrow> json" where
  "placeholder schema ref =
     JObj [(''$ref'', JStr (local_ref ref)),
           (''description'',
             (case js_get schema ''description'' of Some JNull \<Rightarrow> JStr [] | Some d \<Rightarrow> d | None \<Rightarrow> JStr []))]"

definition store :: "string \<Rightarrow> json \<Rightarrow> tstate \<Rightarrow> tstate" where
  "store ref converted st = (fst st, (snd st)\<lparr>schemaCache := obj_set ref converted (schemaCache (snd st))\<rparr>)"

text \<open>
  Every value the cache holds is an object; the cache of a new converter is empty.
\<close>

definition cache_objects :: "converter \<Rightarrow> bool" where
  "cache_objects this = (\<forall>k v. (k, v) \<in> set (schemaCache this) \<longrightarrow> (\<exists>kvs. v = JObj kvs))"

text \<open>A document with one component schema, and two references to it.\<close>

definition pet_document :: json where
  "pet_document =
     JObj [(''components'',
       JObj [(''schemas'',
         JObj [(''Pet'', JObj [(''type'', JStr ''object''), (''description'', JStr ''A pet'')])])])]"

definition pet_site :: "string \<Rightarrow> json" where
  "pet_site d = JObj [(''$ref'', JStr ''#/components/schemas/Pet''), (''description'', JStr d)]"

text \<open>
  Every string that stands under the key \<^verbatim>\<open>$ref\<close> somewhere in a value. \<open>frame\<close> relates
  the state before a translation to the state after it: the set of pointers grows, the
  document and the counter stay.
\<close>

fun all_refs :: "json \<Rightarrow> string set" where
  "all_refs (JObj kvs) = {r. (''$ref'', JStr r) \<in> set kvs} \<union> (\<Union>kv \<in> set kvs. all_refs (snd kv))"
| "all_refs (JArr xs) = (\<Union>x \<in> set xs. all_refs x)"
| "all_refs v = {}"

definition frame :: "tstate \<Rightarrow> tstate \<Rightarrow> bool" where
  "frame st st' =
     (fst st \<subseteq> fst st' \<and> openApiSpec (snd st') = openApiSpec (snd st) \<and>
      nameCounter (snd st') = nameCounter (snd st))"

text \<open>
  What line 90 does with the outcome of the recursive call of line 89: a result is
  stored in the cache of the state that the call returned.
\<close>

definition store_result :: "string \<Rightarrow> error + (json \<times> tstate) \<Rightarrow> error + (json \<times> tstate)" where
  "store_result ref r = then_do r (\<lambda>(converted, st'). Inr (converted, store ref converted st'))"

text \<open>
  A component schema whose property refers to the schema itself, a reference to it,
  and what the translator makes of them.
\<close>

definition node_schema :: json where
  "node_schema =
     JObj [(''type'', JStr ''object''),
           (''properties'', JObj [(''next'', JObj [(''$ref'', JStr ''#/components/schemas/Node'')])])]"

definition node_document :: json where
  "node_document = JObj [(''components'', JObj [(''schemas'', JObj [(''Node'', node_schema)])])]"

definition node_ref :: json where
  "node_ref = JObj [(''$ref'', JStr ''#/components/schemas/Node'')]"

definition node_placeholder :: json where
  "node_placeholder = JObj [(''$ref'', JStr ''#/$defs/Node''), (''description'', JStr [])]"

definition node_translation :: json where
  "node_translation =
     JObj [(''type'', JStr ''object''),
           (''properties'', JObj [(''next'', node_placeholder)]),
           (''additionalProperties'', JBool True)]"




subsection \<open>Argument recovery on a single text\<close>

text \<open>
  A text is recovered when it is delimited by brackets after trimming and parses to an
  object or an array. The entries of an object are settled when recovery leaves the
  object as it is: the keys are distinct, none is \<^verbatim>\<open>__proto__\<close>, no value is a text that
  is recovered and no element of a value that is an array is one.
\<close>

definition recovers :: "(string \<Rightarrow> json option) \<Rightarrow> string \<Rightarrow> bool" where
  "recovers parse s = (looks_like_json s \<and> (case parse s of Some p \<Rightarrow> is_object p | None \<Rightarrow> False))"

definition settled_item :: "(string \<Rightarrow> json option) \<Rightarrow> json \<Rightarrow> bool" where
  "settled_item parse item = (case item of JStr s \<Rightarrow> \<not> recovers parse s | _ \<Rightarrow> True)"

definition settled_value :: "(string \<Rightarrow> json option) \<Rightarrow> json \<Rightarrow> bool" where
  "settled_value parse v =
     (case v of
        JStr s \<Rightarrow> \<not> recovers parse s
      | JArr items \<Rightarrow> list_all (settled_item parse) items
      | _ \<Rightarrow> True)"

definition settled :: "(string \<Rightarrow> json option) \<Rightarrow> (string \<times> json) list \<Rightarrow> bool" where
  "settled parse kvs =
     (distinct (map fst kvs) \<and> ''__proto__'' \<notin> set (map fst kvs) \<and>
      list_all (\<lambda>kv. settled_value parse (snd kv)) kvs)"

definition under_key :: "string \<Rightarrow> error + json \<Rightarrow> error + json" where
  "under_key x r = then_do r (\<lambda>v. Inr (JObj [(x, v)]))"

definition nested_text_object :: json where
  "nested_text_object = JObj [(''a'', JStr ''{\"b\":1}'')]"

definition plain_object_entries :: "(string \<times> json) list" where
  "plain_object_entries = [(''a'', JNum 1), (''b'', JStr ''plain''), (''c'', JArr [JBool True, JNull])]"

definition text_array :: "json list" where
  "text_array = [JStr ''{\"a\":1}'', JNum 2]"

subsection \<open>Documents of operations without parameters\<close>

text \<open>
  An operation that has an identifier and nothing else, a document of such operations
  without component schemas, and the tool the converter makes of the operation.
  \<open>long_document k\<close> has \<open>k\<close> paths, each with one \<^verbatim>\<open>get\<close> operation whose identifier
  is 65 times the letter a followed by the number of the path. \<open>suffixed k\<close> is the
  name such an identifier gets when the counter reaches \<open>k\<close>.
\<close>

definition bare_operation :: "string \<Rightarrow> json" where
  "bare_operation operationId = JObj [(''operationId'', JStr operationId)]"

definition bare_document :: "(string \<times> json) list \<Rightarrow> json" where
  "bare_document paths =
     JObj [(''info'', JObj [(''title'', JStr ''Example''), (''version'', JStr ''1.0.0'')]),
           (''servers'', JArr [JObj [(''url'', JStr ''http://localhost'')]]),
           (''paths'', JObj paths)]"

definition bare_tool :: "string \<Rightarrow> tool" where
  "bare_tool name =
     \<lparr>tool_name = name, tool_description = [],
      inputSchema = JObj [(''$defs'', JObj []), (''type'', JStr ''object''),
                          (''properties'', JObj []), (''required'', JArr [])],
      returnSchema = None\<rparr>"

definition tool_names :: "error + catalogue \<Rightarrow> error + string list" where
  "tool_names r = then_do r (\<lambda>cat. Inr (map tool_name (methods cat)))"

definition long_id :: "nat \<Rightarrow> string" where
  "long_id i = replicate 65 CHR ''a'' @ digits i"

definition long_path :: "nat \<Rightarrow> string \<times> json" where
  "long_path i = (''/'' @ digits i, JObj [(''get'', bare_operation (long_id i))])"

definition long_document :: "nat \<Rightarrow> json" where
  "long_document k = bare_document (map long_path [0..<k])"

definition suffixed :: "nat \<Rightarrow> string" where
  "suffixed k = replicate 59 CHR ''a'' @ ''-'' @ padStart 4 (digits k)"

definition single_long_document :: json where
  "single_long_document = bare_document [(''/x'', JObj [(''get'', bare_operation (replicate 65 CHR ''a''))])]"

definition name_at :: "nat \<Rightarrow> error + string list \<Rightarrow> string option" where
  "name_at i r = (case r of Inr names \<Rightarrow> if i < length names then Some (names ! i) else None | Inl e \<Rightarrow> None)"

subsection \<open>Listing and calling on a proxy under construction\<close>

text \<open>
  The names that \<^verbatim>\<open>tools/list\<close> answers, the keys of the lookup, and a call of
  \<^verbatim>\<open>tools/call\<close>, each on the outcome of the constructor.
\<close>

definition listed_names :: "error + MCPProxy \<Rightarrow> error + string list" where
  "listed_names r = then_do r (\<lambda>proxy. then_do (listTools proxy) (\<lambda>listed. Inr (map listed_name listed)))"

definition lookup_keys :: "error + MCPProxy \<Rightarrow> error + string list" where
  "lookup_keys r = then_do r (\<lambda>proxy. Inr (map fst (lookup proxy)))"

definition call_on :: "error + MCPProxy \<Rightarrow> nat \<Rightarrow> (string \<Rightarrow> json option) \<Rightarrow> (json \<Rightarrow> json \<Rightarrow> error + json option)
    \<Rightarrow> string \<Rightarrow> json option \<Rightarrow> error + json" where
  "call_on r n parse executeOperation name params =
     then_do r (\<lambda>proxy. callTool n parse executeOperation proxy name params)"

subsection \<open>Documents whose names collide\<close>

text \<open>
  Two operations with different identifiers, the first of 64 characters that ends like
  a truncated name and the second of 65 characters; two operations with the same
  identifier; and the keys of the lookup of a catalogue.
\<close>

definition colliding_document :: json where
  "colliding_document =
     bare_document [(''/short'', JObj [(''get'', bare_operation (replicate 59 CHR ''a'' @ ''-0001''))]),
                    (''/long'', JObj [(''get'', bare_operation (replicate 65 CHR ''a''))])]"

definition same_identifier_document :: json where
  "same_identifier_document =
     bare_document [(''/users'', JObj [(''get'', bare_operation ''listUsers'')]),
                    (''/members'', JObj [(''get'', bare_operation ''listUsers'')])]"

definition catalogue_keys :: "error + catalogue \<Rightarrow> error + string list" where
  "catalogue_keys r = then_do r (\<lambda>cat. Inr (map fst (openApiLookup cat)))"

subsection \<open>Texts of a value and parsers\<close>

text \<open>
  The length of the longest text in a value. A parser is shrinking when every text in
  a value it returns is shorter than the text it read, as it is for \<^verbatim>\<open>JSON.parse\<close>.
  Then the recursion of \<^verbatim>\<open>deserializeParams\<close> ends, and fuel above the longest text of
  the arguments is enough.
\<close>

fun longest :: "json \<Rightarrow> nat" where
  "longest (JStr s) = length s"
| "longest (JArr xs) = foldr (\<lambda>x m. max (longest x) m) xs 0"
| "longest (JObj kvs) = foldr (\<lambda>kv m. max (longest (snd kv)) m) kvs 0"
| "longest v = 0"

definition shrinking :: "(string \<Rightarrow> json option) \<Rightarrow> bool" where
  "shrinking parse = (\<forall>s v. parse s = Some v \<longrightarrow> longest v < length s)"

definition array_error_data :: "json option" where
  "array_error_data = Some (JObj [(''response'', JObj [(''data'', JArr [JStr ''a'', JStr ''b''])])])"

definition text_arguments :: "json option" where
  "text_arguments = Some (JObj [(''filter'', JStr ''{\"a\":1}'')])"

subsection \<open>Parameters and bodies\<close>

text \<open>
  An operation with three parameters and a body that is an array, the parts of it that
  the steps of the conversion are applied to, and what the steps leave under a key of
  the properties. \<open>described\<close> is the translation of the schema of a parameter with the
  description of the parameter written onto it, \<open>wrap_property\<close> the body of the loops
  of lines 412 and 425.
\<close>

definition parameter_scenario_operation :: json where
  "parameter_scenario_operation =
     JObj [(''operationId'', JStr ''listThings''),
           (''parameters'',
             JArr [JObj [(''name'', JStr ''filter''), (''in'', JStr ''query''), (''description'', JStr ''A filter''),
                         (''schema'', JObj [(''type'', JStr ''object''),
                                            (''properties'', JObj [(''x'', JObj [(''type'', JStr ''string'')])])])],
                   JObj [(''name'', JStr ''tags''), (''in'', JStr ''query''),
                         (''schema'', JObj [(''type'', JStr ''array''), (''items'', JObj [(''type'', JStr ''string'')])])],
                   JObj [(''name'', JStr ''limit''), (''in'', JStr ''query''),
                         (''schema'', JObj [(''type'', JStr ''integer'')])]]),
           (''requestBody'',
             JObj [(''content'',
               JObj [(''application/json'',
                 JObj [(''schema'', JObj [(''type'', JStr ''array''), (''items'', JObj [(''type'', JStr ''string'')])])])])])]"

definition parameter_scenario_document :: json where
  "parameter_scenario_document =
     JObj [(''openapi'', JStr ''3.0.0''),
           (''info'', JObj [(''title'', JStr ''Test API''), (''version'', JStr ''1.0.0'')]),
           (''paths'', JObj [(''/things'', JObj [(''post'', parameter_scenario_operation)])])]"

definition described :: "json \<Rightarrow> (string \<times> json) list \<Rightarrow> (string \<times> json) list" where
  "described paramObj kvs =
     (case js_get paramObj ''description'' of
        Some d \<Rightarrow> if truthy d then obj_set ''description'' d kvs else kvs
      | None \<Rightarrow> kvs)"

definition wrap_property :: "string \<times> json \<Rightarrow> (string \<times> json) list \<Rightarrow> error + (string \<times> json) list" where
  "wrap_property = (\<lambda>(name, propSchema) props.
     then_do (withStringFallback propSchema) (\<lambda>wrapped. Inr (obj_set name wrapped props)))"

definition built_property :: "string \<Rightarrow> error + building \<Rightarrow> json option" where
  "built_property k r = (case r of Inr b \<Rightarrow> map_of (properties b) k | Inl e \<Rightarrow> None)"

definition filter_schema :: json where
  "filter_schema = JObj [(''type'', JStr ''object''),
                         (''properties'', JObj [(''x'', JObj [(''type'', JStr ''string'')])])]"

definition filter_parameter :: json where
  "filter_parameter =
     JObj [(''name'', JStr ''filter''), (''in'', JStr ''query''), (''description'', JStr ''A filter''),
           (''schema'', filter_schema)]"

definition filter_translation :: "(string \<times> json) list" where
  "filter_translation =
     [(''type'', JStr ''object''),
      (''properties'', JObj [(''x'', JObj [(''type'', JStr ''string'')])]),
      (''additionalProperties'', JBool True)]"

definition list_schema :: json where
  "list_schema = JObj [(''type'', JStr ''array''), (''items'', JObj [(''type'', JStr ''string'')])]"

definition json_body :: "json \<Rightarrow> json" where
  "json_body schema = JObj [(''content'', JObj [(''application/json'', JObj [(''schema'', schema)])])]"

definition form_body :: "json \<Rightarrow> json" where
  "form_body schema = JObj [(''content'', JObj [(''multipart/form-data'', JObj [(''schema'', schema)])])]"

definition start_building :: "json \<Rightarrow> building" where
  "start_building spec = \<lparr>properties = [], required = [], self = new_converter spec\<rparr>"

definition nested_body_schema :: json where
  "nested_body_schema = JObj [(''type'', JStr ''object''), (''properties'', JObj [(''p'', JObj filter_translation)])]"

section \<open>Properties\<close>

subsection \<open>Sequencing\<close>

lemma then_do_Inr [simp]: "then_do (Inr x) f = f x"
  by (simp add: then_do_def)

lemma then_do_Inl [simp]: "then_do (Inl e) f = Inl e"
  by (simp add: then_do_def)

lemma then_do_eq_Inr: "then_do r f = Inr y \<longleftrightarrow> (\<exists>x. r = Inr x \<and> f x = Inr y)"
  by (cases r) simp_all

lemma then_do_eq_Inl: "then_do r f = Inl e \<longleftrightarrow> r = Inl e \<or> (\<exists>x. r = Inr x \<and> f x = Inl e)"
  by (cases r) auto

subsection \<open>The call handler and a failing request\<close>

lemma callTool_known:
  assumes known: "findOperation proxy name = Some operation"
    and args: "(case params of
                  Some p \<Rightarrow> if truthy p then deserializeParams n parse p else Inr (JObj [])
                | None \<Rightarrow> Inr (JObj [])) = Inr args"
  shows "callTool n parse executeOperation proxy name params =
     (case executeOperation operation args of
        Inr response_data \<Rightarrow> Inr (text_content (map_option JSON_stringify response_data))
      | Inl (HttpClientError error_data) \<Rightarrow>
          Inr (text_content (Some (JSON_stringify (error_object (error_payload error_data)))))
      | Inl e \<Rightarrow> Inl e)"
  unfolding callTool_def known args by simp

lemma error_payload_nested:
  "opt_get (opt_get d ''response'') ''data'' = Some v \<Longrightarrow> v \<noteq> JNull \<Longrightarrow> error_payload d = v"
  by (cases v) (simp_all add: error_payload_def nullish_def)

lemma error_payload_data:
  "opt_get (opt_get d ''response'') ''data'' \<in> {None, Some JNull} \<Longrightarrow> d = Some v \<Longrightarrow> v \<noteq> JNull
    \<Longrightarrow> error_payload d = v"
  by (cases v) (auto simp add: error_payload_def nullish_def)

lemma error_payload_empty:
  "opt_get (opt_get d ''response'') ''data'' \<in> {None, Some JNull} \<Longrightarrow> d \<in> {None, Some JNull}
    \<Longrightarrow> error_payload d = JObj []"
  by (auto simp add: error_payload_def nullish_def)

text \<open>
  C7 as the specification states it fails for a payload that is not an object: the body
  \<^verbatim>\<open>"Bad Gateway"\<close> of a response that is not JSON is answered under the key \<^verbatim>\<open>data\<close>,
  not spread into the object.
\<close>

theorem callTool_payload_counterexample:
  "callTool 0 JSON_parse (failing_client (Some (JStr ''Bad Gateway''))) one_tool_proxy ''API-getTest'' None
     = Inr (text_content (Some ''{\"status\":\"error\",\"data\":\"Bad Gateway\"}''))
   \<and> JSON_stringify (error_object_spec (JStr ''Bad Gateway''))
       \<noteq> ''{\"status\":\"error\",\"data\":\"Bad Gateway\"}''"
  by code_simp

subsection \<open>The string fallback\<close>

lemma withStringFallback_complex:
  "is_complex kvs \<Longrightarrow>
     withStringFallback (JObj kvs) = Inr (JObj [(''anyOf'', JArr [JObj kvs, JObj [(''type'', JStr ''string'')]])])"
  by (auto simp add: withStringFallback_def is_complex_def string_schema_def)

lemma withStringFallback_array:
  "\<not> is_complex kvs \<Longrightarrow> map_of kvs ''type'' = Some (JStr ''array'') \<Longrightarrow> map_of kvs ''items'' = Some items
    \<Longrightarrow> truthy items \<Longrightarrow>
     withStringFallback (JObj kvs) = Inr (JObj (AList.update ''items'' (items_fallback items) kvs))"
  by (auto simp add: withStringFallback_def is_complex_def string_schema_def items_fallback_def)

lemma withStringFallback_other:
  "\<not> is_complex kvs \<Longrightarrow>
   \<not> (map_of kvs ''type'' = Some (JStr ''array'') \<and> (\<exists>items. map_of kvs ''items'' = Some items \<and> truthy items))
    \<Longrightarrow> withStringFallback (JObj kvs) = Inr (JObj kvs)"
  by (auto simp add: withStringFallback_def is_complex_def split: option.splits)

lemma body_scenario_property: "input_property ''p''
        (convertOperationToMCPMethod 3 body_scenario_operation ''post'' ''/things''
           (new_converter body_scenario_document))
      = Some (JObj [(''anyOf'',
                JArr [JObj [(''type'', JStr ''object''),
                            (''properties'', JObj [(''x'', JObj [(''type'', JStr ''string'')])]),
                            (''additionalProperties'', JBool True)],
                      JObj [(''type'', JStr ''string'')]])])"
  by code_simp

subsection \<open>Rules for the translation steps\<close>

lemma outcome_Inl [simp]: "outcome E R (Inl e) = E e"
  by (simp add: outcome_def)

lemma outcome_Inr [simp]: "outcome E R (Inr (v, s)) = R v s"
  by (simp add: outcome_def)

lemma outcome_then_do:
  assumes "outcome E R' r" and "\<And>v s. r = Inr (v, s) \<Longrightarrow> R' v s \<Longrightarrow> outcome E R (f (v, s))"
  shows "outcome E R (then_do r f)"
  using assms by (cases r) auto

lemma outcome_mono:
  assumes "outcome E R r" and "\<And>e. E e \<Longrightarrow> E' e" and "\<And>v s. R v s \<Longrightarrow> R' v s"
  shows "outcome E' R' r"
  using assms by (cases r) auto

lemma map_tr_rule:
  assumes "I st"
    and "\<And>x s. x \<in> set xs \<Longrightarrow> I s \<Longrightarrow> outcome E (\<lambda>v s'. Q v \<and> I s') (tr x s)"
  shows "outcome E (\<lambda>ys s'. (\<forall>y \<in> set ys. Q y) \<and> I s') (map_tr tr xs st)"
  using assms
proof (induction xs arbitrary: st)
  case Nil
  then show ?case by simp
next
  case (Cons x xs)
  have head: "outcome E (\<lambda>v s'. Q v \<and> I s') (tr x st)"
    using Cons.prems by simp
  show ?case
    unfolding map_tr.simps
  proof (rule outcome_then_do [OF head])
    fix v s
    assume "Q v \<and> I s"
    then have tail: "outcome E (\<lambda>ys s'. (\<forall>y \<in> set ys. Q y) \<and> I s') (map_tr tr xs s)"
      using Cons.IH [of s] Cons.prems(2) by simp
    show "outcome E (\<lambda>ys s'. (\<forall>y\<in>set ys. Q y) \<and> I s')
        (case (v, s) of (y, st') \<Rightarrow> then_do (map_tr tr xs st') (\<lambda>(ys, st''). Inr (y # ys, st'')))"
      using tail \<open>Q v \<and> I s\<close> by (cases "map_tr tr xs s") auto
  qed
qed

lemma props_tr_rule:
  assumes "I st" and "P target"
    and step: "\<And>k x s. (k, x) \<in> set entries \<Longrightarrow> I s \<Longrightarrow> outcome E (\<lambda>v s'. Q v \<and> I s') (tr x s)"
    and closed: "\<And>k v t. P t \<Longrightarrow> Q v \<Longrightarrow> P (obj_set k v t)"
  shows "outcome E (\<lambda>t s'. P t \<and> I s') (props_tr tr entries target st)"
  using assms(1,2) step
proof (induction entries arbitrary: st target)
  case Nil
  then show ?case by simp
next
  case (Cons entry entries)
  obtain k x where entry: "entry = (k, x)" by (cases entry)
  have head: "outcome E (\<lambda>v s'. Q v \<and> I s') (tr x st)"
    using Cons.prems(1) Cons.prems(3) [of k x st] entry by simp
  show ?case
    unfolding entry props_tr.simps
  proof (rule outcome_then_do [OF head])
    fix v s
    assume vs: "Q v \<and> I s"
    have "outcome E (\<lambda>t s'. P t \<and> I s') (props_tr tr entries (obj_set k v target) s)"
    proof (rule Cons.IH)
      show "I s" using vs by simp
      show "P (obj_set k v target)" using vs Cons.prems(2) closed by simp
      fix k' x' s'
      assume "(k', x') \<in> set entries" "I s'"
      then show "outcome E (\<lambda>v s'. Q v \<and> I s') (tr x' s')"
        using Cons.prems(3) [of k' x' s'] by simp
    qed
    then show "outcome E (\<lambda>t s'. P t \<and> I s')
        (case (v, s) of (v, st') \<Rightarrow> props_tr tr entries (obj_set k v target) st')"
      by simp
  qed
qed


lemma set_update_subset: "set (AList.update k v al) \<subseteq> insert (k, v) (set al)"
  by (induction al) auto

lemma set_obj_set_subset: "set (obj_set k v al) \<subseteq> insert (k, v) (set al)"
  using set_update_subset [of k v al] by (auto simp add: obj_set_def)

lemma child_direct: "js_get schema k = Some v \<Longrightarrow> v \<in> children schema"
  by (auto simp add: children_def)

lemma child_entry: "js_get schema k = Some v \<Longrightarrow> (k', x) \<in> set (object_entries v) \<Longrightarrow> x \<in> children schema"
  by (force simp add: children_def)

lemma child_member: "js_get schema k = Some (JArr xs) \<Longrightarrow> x \<in> set xs \<Longrightarrow> x \<in> children schema"
proof -
  assume a: "js_get schema k = Some (JArr xs)" and b: "x \<in> set xs"
  have "snd ` set (zip (map digits [0..<length xs]) xs) = set xs"
    by (metis length_map length_upt map_snd_zip minus_nat.diff_0 set_map)
  with a b show ?thesis
    by (auto simp add: children_def intro!: exI [of _ k] exI [of _ "JArr xs"])
qed

lemma object_part_rule:
  assumes "I st" and "P result"
    and child: "\<And>x s. x \<in> children schema \<Longrightarrow> I s \<Longrightarrow> outcome E (\<lambda>v s'. Q v \<and> I s') (tr x s)"
    and closed: "\<And>t k v. P t \<Longrightarrow> k \<in> skeys \<Longrightarrow> built_value Q schema v \<Longrightarrow> P (obj_set k v t)"
  shows "outcome E (\<lambda>t s'. P t \<and> I s') (object_part tr schema result st)"
proof (cases "js_get schema ''type'' = Some (JStr ''object'')")
  case False
  then show ?thesis using assms(1,2) by (simp add: object_part_def)
next
  case True
  let ?r1 = "obj_set ''type'' (JStr ''object'') result"
  have r1: "P ?r1"
    using closed [OF assms(2), of "''type''" "JStr ''object''"] by (simp add: skeys_def built_value_def)
  let ?first = "(case js_get schema ''properties'' of
             Some props \<Rightarrow>
               if truthy props then
                 then_do (props_tr tr (object_entries props) [] st)
                   (\<lambda>(ps, st'). Inr (obj_set ''properties'' (JObj ps) ?r1, st'))
               else Inr (?r1, st)
           | None \<Rightarrow> Inr (?r1, st))"
  have first: "outcome E (\<lambda>t s'. P t \<and> I s') ?first"
  proof (cases "js_get schema ''properties''")
    case None
    then show ?thesis using r1 assms(1) by simp
  next
    case (Some props)
    show ?thesis
    proof (cases "truthy props")
      case False
      then show ?thesis using Some r1 assms(1) by simp
    next
      case True
      have "outcome E (\<lambda>t s'. (\<forall>x \<in> snd ` set t. Q x) \<and> I s') (props_tr tr (object_entries props) [] st)"
      proof (rule props_tr_rule [where Q = Q])
        show "I st" by (rule assms(1))
        show "\<forall>x \<in> snd ` set []. Q x" by simp
        fix k x s
        assume "(k, x) \<in> set (object_entries props)" "I s"
        then show "outcome E (\<lambda>v s'. Q v \<and> I s') (tr x s)"
          using child [of x s] child_entry [OF Some] by simp
      next
        fix k v and t :: "(string \<times> json) list"
        assume "\<forall>x \<in> snd ` set t. Q x" "Q v"
        then show "\<forall>x \<in> snd ` set (obj_set k v t). Q x"
          using set_obj_set_subset [of k v t] by fastforce
      qed
      then have "outcome E (\<lambda>t s'. P t \<and> I s')
          (then_do (props_tr tr (object_entries props) [] st)
                   (\<lambda>(ps, st'). Inr (obj_set ''properties'' (JObj ps) ?r1, st')))"
      proof (rule outcome_then_do)
        fix ps :: "(string \<times> json) list" and s
        assume "(\<forall>x \<in> snd ` set ps. Q x) \<and> I s"
        moreover from this have "P (obj_set ''properties'' (JObj ps) ?r1)"
          using closed [OF r1, of "''properties''" "JObj ps"] by (simp add: skeys_def built_value_def)
        ultimately show "outcome E (\<lambda>t s'. P t \<and> I s')
            (case (ps, s) of (ps, st') \<Rightarrow> Inr (obj_set ''properties'' (JObj ps) ?r1, st'))"
          by simp
      qed
      then show ?thesis using Some True by simp
    qed
  qed
  have second: "outcome E (\<lambda>t s'. P t \<and> I s')
      (let result = copy_if_truthy ''required'' schema r in
             case js_get schema ''additionalProperties'' of
               None \<Rightarrow> Inr (obj_set ''additionalProperties'' (JBool True) result, s)
             | Some ap \<Rightarrow>
                 if ap = JBool True then Inr (obj_set ''additionalProperties'' (JBool True) result, s)
                 else if truthy ap \<and> is_object ap then
                   then_do (tr ap s) (\<lambda>(v, st'). Inr (obj_set ''additionalProperties'' v result, st'))
                 else Inr (obj_set ''additionalProperties'' (JBool False) result, s))"
    if "P r \<and> I s" for r s
  proof -
    let ?r2 = "copy_if_truthy ''required'' schema r"
    have r2: "P ?r2"
    proof (cases "js_get schema ''required''")
      case None
      then show ?thesis using that by (simp add: copy_if_truthy_def)
    next
      case (Some req)
      have "P (obj_set ''required'' req r)"
        using that Some closed [of r "''required''" req] by (simp add: skeys_def built_value_def)
      then show ?thesis using that Some by (simp add: copy_if_truthy_def)
    qed
    have ap_bool: "P (obj_set ''additionalProperties'' (JBool b) ?r2)" for b
      using closed [OF r2, of "''additionalProperties''" "JBool b"] by (simp add: skeys_def built_value_def)
    show ?thesis
    proof (cases "js_get schema ''additionalProperties''")
      case None
      then show ?thesis using ap_bool that by (simp add: Let_def)
    next
      case (Some ap)
      show ?thesis
      proof (cases "ap \<noteq> JBool True \<and> truthy ap \<and> is_object ap")
        case False
        then show ?thesis using Some ap_bool that by (auto simp add: Let_def)
      next
        case True
        have "outcome E (\<lambda>v s'. Q v \<and> I s') (tr ap s)"
          using child [of ap s] child_direct [OF Some] that by simp
        then have "outcome E (\<lambda>t s'. P t \<and> I s')
            (then_do (tr ap s) (\<lambda>(v, st'). Inr (obj_set ''additionalProperties'' v ?r2, st')))"
        proof (rule outcome_then_do)
          fix v s'
          assume "Q v \<and> I s'"
          moreover from this have "P (obj_set ''additionalProperties'' v ?r2)"
            using closed [OF r2, of "''additionalProperties''" v] by (simp add: skeys_def built_value_def)
          ultimately show "outcome E (\<lambda>t s'. P t \<and> I s')
              (case (v, s') of (v, st') \<Rightarrow> Inr (obj_set ''additionalProperties'' v ?r2, st'))"
            by simp
        qed
        then show ?thesis using Some True by (simp add: Let_def)
      qed
    qed
  qed
  have "outcome E (\<lambda>t s'. P t \<and> I s') (then_do ?first (\<lambda>(result, st).
             let result = copy_if_truthy ''required'' schema result in
             case js_get schema ''additionalProperties'' of
               None \<Rightarrow> Inr (obj_set ''additionalProperties'' (JBool True) result, st)
             | Some ap \<Rightarrow>
                 if ap = JBool True then Inr (obj_set ''additionalProperties'' (JBool True) result, st)
                 else if truthy ap \<and> is_object ap then
                   then_do (tr ap st) (\<lambda>(v, st'). Inr (obj_set ''additionalProperties'' v result, st'))
                 else Inr (obj_set ''additionalProperties'' (JBool False) result, st)))"
    using first
  proof (rule outcome_then_do)
    fix r s
    assume "P r \<and> I s"
    from second [OF this] show "outcome E (\<lambda>t s'. P t \<and> I s')
        (case (r, s) of (result, st) \<Rightarrow>
             let result = copy_if_truthy ''required'' schema result in
             case js_get schema ''additionalProperties'' of
               None \<Rightarrow> Inr (obj_set ''additionalProperties'' (JBool True) result, st)
             | Some ap \<Rightarrow>
                 if ap = JBool True then Inr (obj_set ''additionalProperties'' (JBool True) result, st)
                 else if truthy ap \<and> is_object ap then
                   then_do (tr ap st) (\<lambda>(v, st'). Inr (obj_set ''additionalProperties'' v result, st'))
                 else Inr (obj_set ''additionalProperties'' (JBool False) result, st))"
      by simp
  qed
  then show ?thesis using True by (simp add: object_part_def Let_def)
qed

lemma array_part_rule:
  assumes "I st" and "P result"
    and child: "\<And>x s. x \<in> children schema \<Longrightarrow> I s \<Longrightarrow> outcome E (\<lambda>v s'. Q v \<and> I s') (tr x s)"
    and closed: "\<And>t k v. P t \<Longrightarrow> k \<in> skeys \<Longrightarrow> built_value Q schema v \<Longrightarrow> P (obj_set k v t)"
  shows "outcome E (\<lambda>t s'. P t \<and> I s') (array_part tr schema result st)"
proof (cases "js_get schema ''items''")
  case None
  then show ?thesis using assms(1,2) by (simp add: array_part_def)
next
  case (Some items)
  show ?thesis
  proof (cases "js_get schema ''type'' = Some (JStr ''array'') \<and> truthy items")
    case False
    then show ?thesis using Some assms(1,2) by (auto simp add: array_part_def)
  next
    case True
    let ?r1 = "obj_set ''type'' (JStr ''array'') result"
    have r1: "P ?r1"
      using closed [OF assms(2), of "''type''" "JStr ''array''"] by (simp add: skeys_def built_value_def)
    have "outcome E (\<lambda>v s'. Q v \<and> I s') (tr items st)"
      using child [of items st] child_direct [OF Some] assms(1) by simp
    then have "outcome E (\<lambda>t s'. P t \<and> I s')
        (then_do (tr items st) (\<lambda>(v, st'). Inr (obj_set ''items'' v ?r1, st')))"
    proof (rule outcome_then_do)
      fix v s'
      assume "Q v \<and> I s'"
      moreover from this have "P (obj_set ''items'' v ?r1)"
        using closed [OF r1, of "''items''" v] by (simp add: skeys_def built_value_def)
      ultimately show "outcome E (\<lambda>t s'. P t \<and> I s')
          (case (v, s') of (v, st') \<Rightarrow> Inr (obj_set ''items'' v ?r1, st'))"
        by simp
    qed
    then show ?thesis using Some True by (simp add: array_part_def)
  qed
qed

lemma composite_part_rule:
  assumes "I st" and "P result" and "E TypeError" and key: "k \<in> {''oneOf'', ''anyOf'', ''allOf''}"
    and child: "\<And>x s. x \<in> children schema \<Longrightarrow> I s \<Longrightarrow> outcome E (\<lambda>v s'. Q v \<and> I s') (tr x s)"
    and closed: "\<And>t k v. P t \<Longrightarrow> k \<in> skeys \<Longrightarrow> built_value Q schema v \<Longrightarrow> P (obj_set k v t)"
  shows "outcome E (\<lambda>t s'. P t \<and> I s') (composite_part k tr schema result st)"
proof (cases "js_get schema k")
  case None
  then show ?thesis using assms(1,2) by (simp add: composite_part_def)
next
  case (Some members)
  show ?thesis
  proof (cases "truthy members")
    case False
    then show ?thesis using Some assms(1,2) by (simp add: composite_part_def)
  next
    case True
    show ?thesis
    proof (cases "\<exists>xs. members = JArr xs")
      case False
      then show ?thesis using Some True assms(3) by (cases members) (simp_all add: composite_part_def)
    next
      case True
      then obtain xs where members: "members = JArr xs" by blast
      have "outcome E (\<lambda>ys s'. (\<forall>y \<in> set ys. Q y) \<and> I s') (map_tr tr xs st)"
      proof (rule map_tr_rule [where Q = Q])
        show "I st" by (rule assms(1))
        fix x s
        assume "x \<in> set xs" "I s"
        then show "outcome E (\<lambda>v s'. Q v \<and> I s') (tr x s)"
          using child [of x s] child_member [of schema k xs x] Some members by simp
      qed
      then have "outcome E (\<lambda>t s'. P t \<and> I s')
          (then_do (map_tr tr xs st) (\<lambda>(ys, st'). Inr (obj_set k (JArr ys) result, st')))"
      proof (rule outcome_then_do)
        fix ys s'
        assume "(\<forall>y \<in> set ys. Q y) \<and> I s'"
        moreover from this have "P (obj_set k (JArr ys) result)"
          using closed [OF assms(2), of k "JArr ys"] key by (auto simp add: skeys_def built_value_def)
        ultimately show "outcome E (\<lambda>t s'. P t \<and> I s')
            (case (ys, s') of (ys, st') \<Rightarrow> Inr (obj_set k (JArr ys) result, st'))"
          by simp
      qed
      then show ?thesis using Some members by (simp add: composite_part_def)
    qed
  qed
qed

lemma convert_inline_rule:
  assumes "I st" and "P (inline_fields schema)" and "E TypeError"
    and child: "\<And>x s. x \<in> children schema \<Longrightarrow> I s \<Longrightarrow> outcome E (\<lambda>v s'. Q v \<and> I s') (tr x s)"
    and closed: "\<And>t k v. P t \<Longrightarrow> k \<in> skeys \<Longrightarrow> built_value Q schema v \<Longrightarrow> P (obj_set k v t)"
  shows "outcome E (\<lambda>v s'. (\<exists>kvs. v = JObj kvs \<and> P kvs) \<and> I s') (convert_inline tr schema st)"
proof -
  note part = outcome_then_do [where E = E and R' = "\<lambda>t s'. P t \<and> I s'"]
  have comp: "outcome E (\<lambda>t s'. P t \<and> I s') (composite_part k tr schema r s)"
    if "P r \<and> I s" "k \<in> {''oneOf'', ''anyOf'', ''allOf''}" for k r s
    using that assms(3) child closed by (intro composite_part_rule) auto
  show ?thesis
    unfolding convert_inline_def
  proof (rule part)
    show "outcome E (\<lambda>t s'. P t \<and> I s') (object_part tr schema (inline_fields schema) st)"
      using assms(1,2) child closed by (intro object_part_rule) auto
  next
    fix r1 s1
    assume a1: "P r1 \<and> I s1"
    show "outcome E (\<lambda>v s'. (\<exists>kvs. v = JObj kvs \<and> P kvs) \<and> I s')
     (case (r1, s1) of (result, st) \<Rightarrow>
     then_do (array_part tr schema result st) (\<lambda>(result, st).
     then_do (composite_part ''oneOf'' tr schema result st) (\<lambda>(result, st).
     then_do (composite_part ''anyOf'' tr schema result st) (\<lambda>(result, st).
     then_do (composite_part ''allOf'' tr schema result st) (\<lambda>(result, st).
       Inr (JObj result, st))))))"
      unfolding prod.case
    proof (rule part)
      show "outcome E (\<lambda>t s'. P t \<and> I s') (array_part tr schema r1 s1)"
        using a1 child closed by (intro array_part_rule) auto
    next
      fix r2 s2
      assume a2: "P r2 \<and> I s2"
      show "outcome E (\<lambda>v s'. (\<exists>kvs. v = JObj kvs \<and> P kvs) \<and> I s')
       (case (r2, s2) of (result, st) \<Rightarrow>
       then_do (composite_part ''oneOf'' tr schema result st) (\<lambda>(result, st).
       then_do (composite_part ''anyOf'' tr schema result st) (\<lambda>(result, st).
       then_do (composite_part ''allOf'' tr schema result st) (\<lambda>(result, st).
         Inr (JObj result, st)))))"
        unfolding prod.case
      proof (rule part)
        show "outcome E (\<lambda>t s'. P t \<and> I s') (composite_part ''oneOf'' tr schema r2 s2)"
          using a2 by (intro comp) auto
      next
        fix r3 s3
        assume a3: "P r3 \<and> I s3"
        show "outcome E (\<lambda>v s'. (\<exists>kvs. v = JObj kvs \<and> P kvs) \<and> I s')
         (case (r3, s3) of (result, st) \<Rightarrow>
         then_do (composite_part ''anyOf'' tr schema result st) (\<lambda>(result, st).
         then_do (composite_part ''allOf'' tr schema result st) (\<lambda>(result, st).
           Inr (JObj result, st))))"
          unfolding prod.case
        proof (rule part)
          show "outcome E (\<lambda>t s'. P t \<and> I s') (composite_part ''anyOf'' tr schema r3 s3)"
            using a3 by (intro comp) auto
        next
          fix r4 s4
          assume a4: "P r4 \<and> I s4"
          show "outcome E (\<lambda>v s'. (\<exists>kvs. v = JObj kvs \<and> P kvs) \<and> I s')
           (case (r4, s4) of (result, st) \<Rightarrow>
           then_do (composite_part ''allOf'' tr schema result st) (\<lambda>(result, st).
             Inr (JObj result, st)))"
            unfolding prod.case
          proof (rule part)
            show "outcome E (\<lambda>t s'. P t \<and> I s') (composite_part ''allOf'' tr schema r4 s4)"
              using a4 by (intro comp) auto
          next
            fix r5 s5
            assume "P r5 \<and> I s5"
            then show "outcome E (\<lambda>v s'. (\<exists>kvs. v = JObj kvs \<and> P kvs) \<and> I s')
               (case (r5, s5) of (result, st) \<Rightarrow> Inr (JObj result, st))"
              by simp
          qed
        qed
      qed
    qed
  qed
qed

subsection \<open>The cases of a reference\<close>

lemma convert_ref_not_string:
  "(\<forall>ref. js_get schema ''$ref'' \<noteq> Some (JStr ref)) \<Longrightarrow> convert_ref tr schema resolveRefs st = Inl TypeError"
  by (auto simp add: convert_ref_def split: option.splits json.splits)

lemma convert_ref_preserved:
  "js_get schema ''$ref'' = Some (JStr ref) \<Longrightarrow> \<not> inline_mode resolveRefs ref \<Longrightarrow>
     convert_ref tr schema resolveRefs st = Inr (preserved_ref schema ref, st)"
  by (simp add: convert_ref_def inline_mode_def preserved_ref_def)

lemma convert_ref_cached:
  "js_get schema ''$ref'' = Some (JStr ref) \<Longrightarrow> inline_mode resolveRefs ref \<Longrightarrow>
   map_of (schemaCache (snd st)) ref = Some cached \<Longrightarrow> truthy cached \<Longrightarrow>
     convert_ref tr schema resolveRefs st = Inr (cached, st)"
  by (auto simp add: convert_ref_def inline_mode_def Let_def)

lemma convert_ref_unresolved:
  "js_get schema ''$ref'' = Some (JStr ref) \<Longrightarrow> inline_mode resolveRefs ref \<Longrightarrow>
   cache_miss (snd st) ref \<Longrightarrow> fst (internalResolveRef (snd st) ref (fst st)) = None \<Longrightarrow>
     convert_ref tr schema resolveRefs st = Inr (placeholder schema ref, st)"
  by (cases "internalResolveRef (snd st) ref (fst st)")
     (auto simp add: convert_ref_def inline_mode_def cache_miss_def placeholder_def Let_def
       internalResolveRef_def split: option.splits if_splits)

lemma convert_ref_resolved:
  "js_get schema ''$ref'' = Some (JStr ref) \<Longrightarrow> inline_mode resolveRefs ref \<Longrightarrow>
   cache_miss (snd st) ref \<Longrightarrow> internalResolveRef (snd st) ref (fst st) = (Some resolved, rr) \<Longrightarrow>
     convert_ref tr schema resolveRefs st =
       then_do (tr resolved (rr, snd st)) (\<lambda>(converted, st'). Inr (converted, store ref converted st'))"
  by (auto simp add: convert_ref_def inline_mode_def cache_miss_def store_def Let_def
       split: option.splits intro!: arg_cong2 [where f = then_do])

lemma internalResolveRef_Some:
  "internalResolveRef this ref rr = (Some resolved, rr') \<Longrightarrow>
     startsWith ref ''#/'' \<and> ref \<notin> rr \<and> rr' = insert ref rr \<and>
     resolve_parts (openApiSpec this) (split_on CHR ''/'' (replace_prefix ''#/'' [] ref)) = Some resolved"
  by (auto simp add: internalResolveRef_def split: if_splits option.splits)

lemma internalResolveRef_None:
  "fst (internalResolveRef this ref rr) = None \<Longrightarrow> snd (internalResolveRef this ref rr) = rr"
  by (auto simp add: internalResolveRef_def split: if_splits option.splits)

lemma internalResolveRef_in_progress:
  "ref \<in> rr \<Longrightarrow> internalResolveRef this ref rr = (None, rr)"
  by (simp add: internalResolveRef_def)

lemma convert_Suc_ref:
  "map_of kvs ''$ref'' \<noteq> None \<Longrightarrow>
     convertOpenApiSchemaToJsonSchema (Suc n) (JObj kvs) resolveRefs st =
       convert_ref (\<lambda>s. convertOpenApiSchemaToJsonSchema n s resolveRefs) (JObj kvs) resolveRefs st"
  by simp

lemma convert_Suc_inline:
  "map_of kvs ''$ref'' = None \<Longrightarrow>
     convertOpenApiSchemaToJsonSchema (Suc n) (JObj kvs) resolveRefs st =
       convert_inline (\<lambda>s. convertOpenApiSchemaToJsonSchema n s resolveRefs) (JObj kvs) st"
  by simp

lemma digit_char_is_digit: "digit_char d \<in> set ''0123456789''"
proof -
  have "d mod 10 < length ''0123456789''" by simp
  then show ?thesis unfolding digit_char_def by (rule nth_mem)
qed

lemma digits_chars: "set (digits n) \<subseteq> set ''0123456789''"
proof (induction n rule: digits.induct)
  case (1 n)
  show ?case
  proof (cases "n < 10")
    case True
    then have "digits n = [digit_char n]" by (subst digits.simps) simp
    then show ?thesis using digit_char_is_digit [of n] by simp
  next
    case False
    then have "digits n = digits (n div 10) @ [digit_char (n mod 10)]" by (subst digits.simps) simp
    then show ?thesis using 1 False digit_char_is_digit [of "n mod 10"] by simp
  qed
qed

lemma digits_not_empty: "digits n \<noteq> []"
  by (subst digits.simps) simp

lemma index_of_not_digits: "\<not> set k \<subseteq> set ''0123456789'' \<Longrightarrow> index_of n k = None"
proof -
  assume "\<not> set k \<subseteq> set ''0123456789''"
  then have "digits i \<noteq> k" for i
    using digits_chars [of i] by auto
  then show ?thesis by (simp add: index_of_def)
qed

lemma index_of_ref: "index_of n ''$ref'' = None"
  by (rule index_of_not_digits) simp

lemma convert_Suc_array:
  "convertOpenApiSchemaToJsonSchema (Suc n) (JArr xs) resolveRefs st =
       convert_inline (\<lambda>s. convertOpenApiSchemaToJsonSchema n s resolveRefs) (JArr xs) st"
  by (simp add: index_of_ref)

lemma convert_Suc_primitive:
  "(\<forall>kvs. schema \<noteq> JObj kvs) \<Longrightarrow> (\<forall>xs. schema \<noteq> JArr xs) \<Longrightarrow>
     convertOpenApiSchemaToJsonSchema (Suc n) schema resolveRefs st = Inl TypeError"
  by (cases schema) simp_all

lemma convert_rule:
  assumes "I st"
    and ins: "\<And>rr c ref. I (rr, c) \<Longrightarrow> I (insert ref rr, c)"
    and sto: "\<And>s ref v. I s \<Longrightarrow> Q v \<Longrightarrow> I (store ref v s)"
    and cached: "\<And>s ref v. I s \<Longrightarrow> map_of (schemaCache (snd s)) ref = Some v \<Longrightarrow> Q v"
    and objs: "\<And>kvs. Q (JObj kvs)"
    and fuel: "E OutOfFuel" and ill: "E TypeError"
  shows "outcome E (\<lambda>v s'. Q v \<and> I s') (convertOpenApiSchemaToJsonSchema n schema resolveRefs st)"
  using assms(1)
proof (induction n arbitrary: schema st)
  case 0
  then show ?case using fuel by simp
next
  case (Suc n)
  let ?tr = "\<lambda>s. convertOpenApiSchemaToJsonSchema n s resolveRefs"
  have inline: "outcome E (\<lambda>v s'. Q v \<and> I s') (convert_inline ?tr schema st)"
  proof (rule outcome_mono)
    show "outcome E (\<lambda>v s'. (\<exists>kvs. v = JObj kvs \<and> True) \<and> I s') (convert_inline ?tr schema st)"
      using Suc.prems Suc.IH ill by (intro convert_inline_rule [where Q = Q]) auto
  qed (auto simp add: objs)
  show ?case
  proof (cases schema)
    case (JObj kvs)
    show ?thesis
    proof (cases "map_of kvs ''$ref''")
      case None
      then show ?thesis using inline JObj by simp
    next
      case (Some r)
      show ?thesis
      proof (cases "\<exists>ref. r = JStr ref")
        case False
        then show ?thesis using Some JObj convert_ref_not_string [of schema] ill by simp
      next
        case True
        then obtain ref where ref: "js_get schema ''$ref'' = Some (JStr ref)"
          using Some JObj by auto
        have unfold: "convertOpenApiSchemaToJsonSchema (Suc n) schema resolveRefs st =
            convert_ref ?tr schema resolveRefs st"
          using Some JObj by simp
        show ?thesis
        proof (cases "inline_mode resolveRefs ref")
          case False
          then show ?thesis
            using unfold convert_ref_preserved [OF ref] Suc.prems objs by (simp add: preserved_ref_def)
        next
          case True
          note inl = this
          show ?thesis
          proof (cases "cache_miss (snd st) ref")
            case False
            then obtain c where "map_of (schemaCache (snd st)) ref = Some c" "truthy c"
              by (auto simp add: cache_miss_def split: option.splits)
            then show ?thesis
              using unfold convert_ref_cached [OF ref inl] cached [OF Suc.prems] Suc.prems by simp
          next
            case True
            note miss = this
            show ?thesis
            proof (cases "internalResolveRef (snd st) ref (fst st)")
              case (Pair res rr)
              show ?thesis
              proof (cases res)
                case None
                then show ?thesis
                  using unfold convert_ref_unresolved [OF ref inl miss] Pair Suc.prems objs
                  by (simp add: placeholder_def)
              next
                case (Some resolved)
                then have rr: "rr = insert ref (fst st)"
                  using Pair internalResolveRef_Some by blast
                have "I (rr, snd st)"
                  using ins [of "fst st" "snd st" ref] Suc.prems rr by simp
                then have rec: "outcome E (\<lambda>v s'. Q v \<and> I s') (?tr resolved (rr, snd st))"
                  by (rule Suc.IH)
                have "outcome E (\<lambda>v s'. Q v \<and> I s')
                    (then_do (?tr resolved (rr, snd st)) (\<lambda>(converted, st'). Inr (converted, store ref converted st')))"
                  using rec
                proof (rule outcome_then_do)
                  fix v s
                  assume "Q v \<and> I s"
                  then show "outcome E (\<lambda>v s'. Q v \<and> I s')
                      (case (v, s) of (converted, st') \<Rightarrow> Inr (converted, store ref converted st'))"
                    using sto by simp
                qed
                then show ?thesis
                  using unfold convert_ref_resolved [OF ref inl miss] Pair Some by simp
              qed
            qed
          qed
        qed
      qed
    qed
  next
    case (JArr xs)
    then show ?thesis using inline by (simp add: index_of_ref)
  qed (simp_all add: ill)
qed

subsection \<open>A cached reference\<close>

lemma map_of_obj_set_same: "k \<noteq> ''__proto__'' \<Longrightarrow> map_of (obj_set k v kvs) k = Some v"
  by (simp add: obj_set_def update_conv')

lemma map_of_obj_set_other: "k' \<noteq> k \<Longrightarrow> map_of (obj_set k v kvs) k' = map_of kvs k'"
  by (simp add: obj_set_def update_conv')

lemma cache_objects_store:
  assumes "cache_objects (snd s)" "\<exists>kvs. v = JObj kvs"
  shows "cache_objects (snd (store ref v s))"
  unfolding cache_objects_def store_def
proof (intro allI impI)
  fix k' v'
  assume "(k', v') \<in> set (schemaCache (snd (fst s, snd s\<lparr>schemaCache := obj_set ref v (schemaCache (snd s))\<rparr>)))"
  then have "(k', v') \<in> insert (ref, v) (set (schemaCache (snd s)))"
    using set_obj_set_subset [of ref v "schemaCache (snd s)"] by auto
  then show "\<exists>kvs. v' = JObj kvs"
    using assms unfolding cache_objects_def by blast
qed

lemma cache_objects_lookup:
  assumes "cache_objects this" "map_of (schemaCache this) ref = Some v"
  shows "\<exists>kvs. v = JObj kvs"
proof -
  have "(ref, v) \<in> set (schemaCache this)" using assms(2) by (rule map_of_SomeD)
  then show ?thesis using assms(1) unfolding cache_objects_def by blast
qed

lemma convert_objects:
  assumes "cache_objects (snd st)"
  shows "outcome (\<lambda>e. True) (\<lambda>v s'. (\<exists>kvs. v = JObj kvs) \<and> cache_objects (snd s'))
           (convertOpenApiSchemaToJsonSchema n schema resolveRefs st)"
proof (rule convert_rule [where I = "\<lambda>s. cache_objects (snd s)"])
  show "cache_objects (snd st)" by (rule assms)
next
  fix s :: tstate and ref v
  assume "cache_objects (snd s)" "\<exists>kvs. v = JObj kvs"
  then show "cache_objects (snd (store ref v s))" by (rule cache_objects_store)
next
  fix s :: tstate and ref v
  assume "cache_objects (snd s)" "map_of (schemaCache (snd s)) ref = Some v"
  then show "\<exists>kvs. v = JObj kvs" by (rule cache_objects_lookup)
qed simp_all

lemma starts_with_hash_not_proto: "startsWith ref ''#/'' \<Longrightarrow> ref \<noteq> ''__proto__''"
  by (auto simp add: startsWith_def)

lemma first_site_stores:
  assumes inl: "inline_mode resolveRefs ref"
    and objs: "cache_objects this"
    and miss: "map_of (schemaCache this) ref = None"
    and res: "fst (internalResolveRef this ref rr) \<noteq> None"
    and first: "convertOpenApiSchemaToJsonSchema (Suc n) (JObj ((''$ref'', JStr ref) # rest)) resolveRefs (rr, this)
                  = Inr (v1, (rr1, this1))"
  shows "map_of (schemaCache this1) ref = Some v1 \<and> truthy v1"
proof -
  let ?tr = "\<lambda>s. convertOpenApiSchemaToJsonSchema n s resolveRefs"
  let ?schema = "JObj ((''$ref'', JStr ref) # rest)"
  obtain resolved rr' where r: "internalResolveRef this ref rr = (Some resolved, rr')"
    using res by (cases "internalResolveRef this ref rr") auto
  have ref: "js_get ?schema ''$ref'' = Some (JStr ref)" by simp
  have "cache_miss (snd (rr, this)) ref" using miss by (simp add: cache_miss_def)
  from convert_ref_resolved [OF ref inl this, of resolved rr' ?tr] r
  have "convertOpenApiSchemaToJsonSchema (Suc n) ?schema resolveRefs (rr, this) =
      then_do (?tr resolved (rr', this)) (\<lambda>(converted, st'). Inr (converted, store ref converted st'))"
    by simp
  with first have "then_do (?tr resolved (rr', this)) (\<lambda>(converted, st'). Inr (converted, store ref converted st'))
      = Inr (v1, (rr1, this1))"
    by simp
  then obtain x where x: "?tr resolved (rr', this) = Inr x"
    and x': "(case x of (converted, st') \<Rightarrow> Inr (converted, store ref converted st')) = Inr (v1, (rr1, this1))"
    by (auto simp add: then_do_eq_Inr)
  obtain s' where inner: "?tr resolved (rr', this) = Inr (v1, s')"
    and st1: "(rr1, this1) = store ref v1 s'"
    using x x' by (cases x) auto
  have "\<exists>kvs. v1 = JObj kvs"
    using convert_objects [of "(rr', this)" n resolved resolveRefs] objs inner by simp
  moreover have "ref \<noteq> ''__proto__''"
    using r internalResolveRef_Some starts_with_hash_not_proto by blast
  ultimately show ?thesis
    using st1 by (auto simp add: store_def map_of_obj_set_same)
qed

text \<open>
  C10. A reference that is resolved in place and whose pointer has a truthy entry in the
  cache: the translation is the entry as stored and the state does not change, whatever
  description the referencing node carries. In the preserved mode the description of
  the referencing node is attached to the local reference. Where a first site with one
  description was resolved and translated, a second site with another description
  gets the translation of the first.
\<close>

theorem cached_reference_returned_as_stored:
  "(map_of kvs ''$ref'' = Some (JStr ref) \<longrightarrow> inline_mode resolveRefs ref \<longrightarrow>
      map_of (schemaCache this) ref = Some cached \<longrightarrow> truthy cached \<longrightarrow>
        convertOpenApiSchemaToJsonSchema (Suc n) (JObj kvs) resolveRefs (rr, this) = Inr (cached, (rr, this)))
   \<and> (map_of kvs ''$ref'' = Some (JStr ref) \<longrightarrow> \<not> inline_mode resolveRefs ref \<longrightarrow>
        convertOpenApiSchemaToJsonSchema (Suc n) (JObj kvs) resolveRefs (rr, this) =
          Inr (JObj ((''$ref'', JStr (local_ref ref)) #
                     (case map_of kvs ''description'' of Some d \<Rightarrow> [(''description'', d)] | None \<Rightarrow> [])),
               (rr, this)))
   \<and> (inline_mode resolveRefs ref \<longrightarrow> cache_objects this \<longrightarrow> map_of (schemaCache this) ref = None \<longrightarrow>
        fst (internalResolveRef this ref rr) \<noteq> None \<longrightarrow>
        convertOpenApiSchemaToJsonSchema (Suc n) (JObj [(''$ref'', JStr ref), (''description'', JStr d1)])
            resolveRefs (rr, this) = Inr (v1, (rr1, this1)) \<longrightarrow>
        convertOpenApiSchemaToJsonSchema (Suc m) (JObj [(''$ref'', JStr ref), (''description'', JStr d2)])
            resolveRefs (rr2, this1) = Inr (v1, (rr2, this1)))"
proof (intro conjI impI)
  assume "map_of kvs ''$ref'' = Some (JStr ref)" "inline_mode resolveRefs ref"
    "map_of (schemaCache this) ref = Some cached" "truthy cached"
  then show "convertOpenApiSchemaToJsonSchema (Suc n) (JObj kvs) resolveRefs (rr, this) = Inr (cached, (rr, this))"
    using convert_ref_cached [of "JObj kvs" ref resolveRefs "(rr, this)" cached] by simp
next
  assume "map_of kvs ''$ref'' = Some (JStr ref)" "\<not> inline_mode resolveRefs ref"
  then show "convertOpenApiSchemaToJsonSchema (Suc n) (JObj kvs) resolveRefs (rr, this) =
          Inr (JObj ((''$ref'', JStr (local_ref ref)) #
                     (case map_of kvs ''description'' of Some d \<Rightarrow> [(''description'', d)] | None \<Rightarrow> [])),
               (rr, this))"
    using convert_ref_preserved [of "JObj kvs" ref resolveRefs _ "(rr, this)"] by (simp add: preserved_ref_def)
next
  assume inl: "inline_mode resolveRefs ref" and "cache_objects this" "map_of (schemaCache this) ref = None"
    "fst (internalResolveRef this ref rr) \<noteq> None"
    "convertOpenApiSchemaToJsonSchema (Suc n) (JObj [(''$ref'', JStr ref), (''description'', JStr d1)])
            resolveRefs (rr, this) = Inr (v1, (rr1, this1))"
  then have "map_of (schemaCache this1) ref = Some v1 \<and> truthy v1"
    by (rule first_site_stores)
  then show "convertOpenApiSchemaToJsonSchema (Suc m) (JObj [(''$ref'', JStr ref), (''description'', JStr d2)])
            resolveRefs (rr2, this1) = Inr (v1, (rr2, this1))"
    using convert_ref_cached [of "JObj [(''$ref'', JStr ref), (''description'', JStr d2)]" ref resolveRefs
        "(rr2, this1)" v1] inl by simp
qed



theorem cached_reference_returned_as_stored_witness:
  "convertOpenApiSchemaToJsonSchema 2 (pet_site ''first'') True ({}, new_converter pet_document)
     = Inr (JObj [(''type'', JStr ''object''), (''description'', JStr ''A pet''), (''additionalProperties'', JBool True)],
            ({''#/components/schemas/Pet''},
             (new_converter pet_document)\<lparr>schemaCache :=
                [(''#/components/schemas/Pet'',
                  JObj [(''type'', JStr ''object''), (''description'', JStr ''A pet''),
                        (''additionalProperties'', JBool True)])]\<rparr>))
   \<and> convertOpenApiSchemaToJsonSchema 1 (pet_site ''second'') True
        ({}, (new_converter pet_document)\<lparr>schemaCache :=
                [(''#/components/schemas/Pet'',
                  JObj [(''type'', JStr ''object''), (''description'', JStr ''A pet''),
                        (''additionalProperties'', JBool True)])]\<rparr>)
     = Inr (JObj [(''type'', JStr ''object''), (''description'', JStr ''A pet''), (''additionalProperties'', JBool True)],
            ({}, (new_converter pet_document)\<lparr>schemaCache :=
                [(''#/components/schemas/Pet'',
                  JObj [(''type'', JStr ''object''), (''description'', JStr ''A pet''),
                        (''additionalProperties'', JBool True)])]\<rparr>))"
proof -
  let ?ref = "''#/components/schemas/Pet''"
  let ?v1 = "JObj [(''type'', JStr ''object''), (''description'', JStr ''A pet''), (''additionalProperties'', JBool True)]"
  let ?this1 = "(new_converter pet_document)\<lparr>schemaCache := [(?ref, ?v1)]\<rparr>"
  have inl: "inline_mode True ?ref" by (simp add: inline_mode_def)
  have objs: "cache_objects (new_converter pet_document)" by (simp add: cache_objects_def new_converter_def)
  have miss: "map_of (schemaCache (new_converter pet_document)) ?ref = None" by (simp add: new_converter_def)
  have "fst (internalResolveRef (new_converter pet_document) ?ref {})
      = Some (JObj [(''type'', JStr ''object''), (''description'', JStr ''A pet'')])"
    by code_simp
  then have res: "fst (internalResolveRef (new_converter pet_document) ?ref {}) \<noteq> None" by simp
  have first: "convertOpenApiSchemaToJsonSchema (Suc 1) (JObj [(''$ref'', JStr ?ref), (''description'', JStr ''first'')])
            True ({}, new_converter pet_document) = Inr (?v1, ({?ref}, ?this1))"
    by code_simp
  from cached_reference_returned_as_stored [where ref = ?ref and resolveRefs = True
      and this = "new_converter pet_document" and rr = "{}" and n = 1 and ?d1.0 = "''first''"
      and ?d2.0 = "''second''" and ?v1.0 = ?v1 and ?rr1.0 = "{?ref}" and ?this1.0 = ?this1 and m = 0 and ?rr2.0 = "{}"]
    inl objs miss res first
  have "convertOpenApiSchemaToJsonSchema (Suc 0) (JObj [(''$ref'', JStr ?ref), (''description'', JStr ''second'')])
            True ({}, ?this1) = Inr (?v1, ({}, ?this1))"
    by blast
  with first show ?thesis by (simp add: pet_site_def numeral_2_eq_2)
qed

subsection \<open>Sizes and pointers of the parts of a value\<close>

lemma size_member: "(k, v) \<in> set kvs \<Longrightarrow> size v < size (JObj kvs)"
  by (induction kvs) auto

lemma size_element: "x \<in> set xs \<Longrightarrow> size x < size (JArr xs)"
  by (induction xs) auto


lemma finite_all_refs: "finite (all_refs j)"
proof (induction j)
  case (JObj kvs)
  have "{r. (''$ref'', JStr r) \<in> set kvs} \<subseteq> (\<lambda>kv. case snd kv of JStr r \<Rightarrow> r | _ \<Rightarrow> []) ` set kvs"
    by force
  then have "finite {r. (''$ref'', JStr r) \<in> set kvs}"
    by (rule finite_subset) simp
  moreover have "finite (all_refs (snd kv))" if "kv \<in> set kvs" for kv
    using that JObj by (cases kv) (auto simp add: snds.simps)
  ultimately show ?case by simp
qed simp_all

lemma index_of_less: "index_of n k = Some i \<Longrightarrow> i < n"
proof -
  assume "index_of n k = Some i"
  then obtain rest where "filter (\<lambda>i. digits i = k) [0..<n] = i # rest"
    by (auto simp add: index_of_def split: list.splits)
  then have "i \<in> set (filter (\<lambda>i. digits i = k) [0..<n])" by simp
  then show ?thesis by simp
qed

lemma js_get_array: "js_get (JArr xs) k = Some v \<Longrightarrow> (\<exists>n. v = JNum n) \<or> v \<in> set xs"
  by (auto split: if_splits dest: index_of_less)

lemma js_get_size_le: "js_get j k = Some v \<Longrightarrow> size v \<le> size j"
proof (cases j)
  case (JObj kvs)
  assume "js_get j k = Some v"
  then have "(k, v) \<in> set kvs" using JObj by (auto dest: map_of_SomeD)
  then show ?thesis using size_member JObj by fastforce
next
  case (JArr xs)
  assume "js_get j k = Some v"
  then have "size v = 0 \<or> v \<in> set xs"
    using JArr js_get_array [of xs k v] by auto
  then show ?thesis using size_element JArr by fastforce
next
  case (JStr s)
  assume "js_get j k = Some v"
  then show ?thesis using JStr by (auto split: if_splits)
qed simp_all

lemma js_get_size_less:
  "js_get j k = Some v \<Longrightarrow> (\<exists>kvs. j = JObj kvs) \<or> (\<exists>xs. j = JArr xs) \<Longrightarrow> size v < size j"
proof (cases j)
  case (JObj kvs)
  assume "js_get j k = Some v"
  then have "(k, v) \<in> set kvs" using JObj by (auto dest: map_of_SomeD)
  then show ?thesis using size_member JObj by simp
next
  case (JArr xs)
  assume "js_get j k = Some v"
  then have "size v = 0 \<or> v \<in> set xs"
    using JArr js_get_array [of xs k v] by auto
  then show ?thesis using size_element [of v xs] JArr by auto
qed auto

lemma entries_size_le: "(k, x) \<in> set (object_entries v) \<Longrightarrow> size x \<le> size v"
proof (cases v)
  case (JObj kvs)
  assume "(k, x) \<in> set (object_entries v)"
  then show ?thesis using JObj size_member [of k x kvs] by simp
next
  case (JArr xs)
  assume "(k, x) \<in> set (object_entries v)"
  then have "x \<in> set xs" using JArr by (auto dest: set_zip_rightD)
  then show ?thesis using JArr size_element [of x xs] by simp
next
  case (JStr s)
  assume "(k, x) \<in> set (object_entries v)"
  then have "x \<in> (\<lambda>c. JStr [c]) ` set s" using JStr by (auto dest: set_zip_rightD)
  then show ?thesis using JStr by auto
qed simp_all

lemma children_size:
  assumes "x \<in> children schema" and "(\<exists>kvs. schema = JObj kvs) \<or> (\<exists>xs. schema = JArr xs)"
  shows "size x < size schema"
proof -
  from assms(1) obtain k v where get: "js_get schema k = Some v"
    and x: "x = v \<or> x \<in> snd ` set (object_entries v)"
    by (auto simp add: children_def)
  have "size v < size schema" using get assms(2) by (rule js_get_size_less)
  moreover have "size x \<le> size v"
  proof (cases "x = v")
    case False
    then obtain k' where "(k', x) \<in> set (object_entries v)" using x by auto
    then show ?thesis by (rule entries_size_le)
  qed simp
  ultimately show ?thesis by simp
qed

lemma js_get_refs: "js_get j k = Some v \<Longrightarrow> all_refs v \<subseteq> all_refs j"
proof (cases j)
  case (JObj kvs)
  assume "js_get j k = Some v"
  then have "(k, v) \<in> set kvs" using JObj by (auto dest: map_of_SomeD)
  then show ?thesis using JObj by force
next
  case (JArr xs)
  assume "js_get j k = Some v"
  then have "all_refs v = {} \<or> v \<in> set xs"
    using JArr js_get_array [of xs k v] by auto
  then show ?thesis using JArr by auto
next
  case (JStr s)
  assume "js_get j k = Some v"
  then show ?thesis using JStr by (auto split: if_splits)
qed simp_all

lemma entries_refs: "(k, x) \<in> set (object_entries v) \<Longrightarrow> all_refs x \<subseteq> all_refs v"
proof (cases v)
  case (JObj kvs)
  assume "(k, x) \<in> set (object_entries v)"
  then show ?thesis using JObj by force
next
  case (JArr xs)
  assume "(k, x) \<in> set (object_entries v)"
  then have "x \<in> set xs" using JArr by (auto dest: set_zip_rightD)
  then show ?thesis using JArr by auto
next
  case (JStr s)
  assume "(k, x) \<in> set (object_entries v)"
  then have "x \<in> (\<lambda>c. JStr [c]) ` set s" using JStr by (auto dest: set_zip_rightD)
  then show ?thesis by auto
qed simp_all

lemma children_refs:
  assumes "x \<in> children schema"
  shows "all_refs x \<subseteq> all_refs schema"
proof -
  from assms(1) obtain k v where get: "js_get schema k = Some v"
    and x: "x = v \<or> x \<in> snd ` set (object_entries v)"
    by (auto simp add: children_def)
  have "all_refs v \<subseteq> all_refs schema" using get by (rule js_get_refs)
  moreover have "all_refs x \<subseteq> all_refs v"
  proof (cases "x = v")
    case False
    then obtain k' where "(k', x) \<in> set (object_entries v)" using x by auto
    then show ?thesis by (rule entries_refs)
  qed simp
  ultimately show ?thesis by blast
qed

lemma resolve_parts_size: "resolve_parts current parts = Some node \<Longrightarrow> size node \<le> size current"
proof (induction parts arbitrary: current)
  case Nil
  then show ?case by simp
next
  case (Cons part parts)
  then obtain v where v: "js_get current part = Some v" and rest: "resolve_parts v parts = Some node"
    by (auto split: option.splits if_splits)
  have "size node \<le> size v" using rest by (rule Cons.IH)
  moreover have "size v \<le> size current" using v by (rule js_get_size_le)
  ultimately show ?case by simp
qed

lemma resolve_parts_refs: "resolve_parts current parts = Some node \<Longrightarrow> all_refs node \<subseteq> all_refs current"
proof (induction parts arbitrary: current)
  case Nil
  then show ?case by simp
next
  case (Cons part parts)
  then obtain v where v: "js_get current part = Some v" and rest: "resolve_parts v parts = Some node"
    by (auto split: option.splits if_splits)
  have "all_refs node \<subseteq> all_refs v" using rest by (rule Cons.IH)
  moreover have "all_refs v \<subseteq> all_refs current" using v by (rule js_get_refs)
  ultimately show ?case by blast
qed

subsection \<open>The translator returns\<close>

lemma frame_refl: "frame st st"
  by (simp add: frame_def)

lemma frame_trans: "frame a b \<Longrightarrow> frame b c \<Longrightarrow> frame a c"
  by (auto simp add: frame_def)

lemma convert_frame:
  "outcome (\<lambda>e. True) (\<lambda>v s'. frame st s') (convertOpenApiSchemaToJsonSchema n schema resolveRefs st)"
proof -
  have "outcome (\<lambda>e. True) (\<lambda>v s'. True \<and> frame st s') (convertOpenApiSchemaToJsonSchema n schema resolveRefs st)"
  proof (rule convert_rule [where I = "frame st" and Q = "\<lambda>v. True"])
    show "frame st st" by (rule frame_refl)
  next
    fix rr c ref
    assume "frame st (rr, c)"
    then show "frame st (insert ref rr, c)" by (auto simp add: frame_def)
  next
    fix s :: tstate and ref v
    assume "frame st s"
    then show "frame st (store ref v s)" by (simp add: frame_def store_def)
  qed simp_all
  then show ?thesis by simp
qed

lemma outcome_conj:
  "outcome E1 R1 r \<Longrightarrow> outcome E2 R2 r \<Longrightarrow> outcome (\<lambda>e. E1 e \<and> E2 e) (\<lambda>v s. R1 v s \<and> R2 v s) r"
  by (cases r) auto

lemma card_diff_insert:
  assumes "finite R" "ref \<in> R" "ref \<notin> rr" "card (R - rr) \<le> u"
  shows "0 < u \<and> card (R - insert ref rr) \<le> u - 1"
proof -
  have fin: "finite (R - rr)" using assms(1) by simp
  have mem: "ref \<in> R - rr" using assms(2,3) by simp
  have "R - insert ref rr = (R - rr) - {ref}" by auto
  then have "card (R - insert ref rr) = card (R - rr) - 1"
    using fin mem by simp
  moreover have "0 < card (R - rr)" using fin mem by (auto simp add: card_gt_0_iff)
  ultimately show ?thesis using assms(4) by simp
qed

lemma card_diff_mono:
  assumes "finite R" "rr \<subseteq> rr'" "card (R - rr) \<le> u"
  shows "card (R - rr') \<le> u"
proof -
  have "R - rr' \<subseteq> R - rr" using assms(2) by auto
  then have "card (R - rr') \<le> card (R - rr)" using assms(1) by (intro card_mono) simp_all
  then show ?thesis using assms(3) by simp
qed

lemma ref_in_all_refs: "js_get schema ''$ref'' = Some (JStr ref) \<Longrightarrow> ref \<in> all_refs schema"
proof (cases schema)
  case (JObj kvs)
  assume "js_get schema ''$ref'' = Some (JStr ref)"
  then have "(''$ref'', JStr ref) \<in> set kvs" using JObj by (auto dest: map_of_SomeD)
  then show ?thesis using JObj by simp
next
  case (JArr xs)
  assume "js_get schema ''$ref'' = Some (JStr ref)"
  then show ?thesis using JArr by (simp add: index_of_ref)
next
  case (JStr s)
  assume "js_get schema ''$ref'' = Some (JStr ref)"
  then show ?thesis using JStr by (simp add: index_of_ref)
qed simp_all

lemma convert_fuel:
  assumes "finite R"
    and "all_refs (openApiSpec (snd st)) \<subseteq> R"
    and "size (openApiSpec (snd st)) \<le> D"
    and "all_refs schema \<subseteq> R"
    and "card (R - fst st) \<le> u"
    and "size schema + 1 + u * (D + 1) \<le> n"
  shows "outcome (\<lambda>e. e \<noteq> OutOfFuel) (\<lambda>v s'. True) (convertOpenApiSchemaToJsonSchema n schema resolveRefs st)"
  using assms(2-)
proof (induction n arbitrary: schema st u)
  case 0
  then show ?case by simp
next
  case (Suc n)
  let ?tr = "\<lambda>s. convertOpenApiSchemaToJsonSchema n s resolveRefs"
  note fin = assms(1)
  have inline: "outcome (\<lambda>e. e \<noteq> OutOfFuel) (\<lambda>v s'. True) (convert_inline ?tr schema st)"
    if shape: "(\<exists>kvs. schema = JObj kvs) \<or> (\<exists>xs. schema = JArr xs)"
  proof (rule outcome_mono)
    show "outcome (\<lambda>e. e \<noteq> OutOfFuel) (\<lambda>v s'. (\<exists>kvs. v = JObj kvs \<and> True) \<and> frame st s')
        (convert_inline ?tr schema st)"
    proof (rule convert_inline_rule [where Q = "\<lambda>v. True"])
      show "frame st st" by (rule frame_refl)
    next
      fix x s
      assume x: "x \<in> children schema" and s: "frame st s"
      have "outcome (\<lambda>e. e \<noteq> OutOfFuel) (\<lambda>v s'. True) (?tr x s)"
      proof (rule Suc.IH [where u = u])
        show "all_refs (openApiSpec (snd s)) \<subseteq> R" using s Suc.prems(1) by (simp add: frame_def)
        show "size (openApiSpec (snd s)) \<le> D" using s Suc.prems(2) by (simp add: frame_def)
        show "all_refs x \<subseteq> R" using children_refs [OF x] Suc.prems(3) by blast
        show "card (R - fst s) \<le> u"
          using card_diff_mono [OF fin _ Suc.prems(4)] s by (simp add: frame_def)
        show "size x + 1 + u * (D + 1) \<le> n"
          using children_size [OF x shape] Suc.prems(5) by simp
      qed
      moreover have "outcome (\<lambda>e. True) (\<lambda>v s'. frame s s') (?tr x s)" by (rule convert_frame)
      ultimately have "outcome (\<lambda>e. e \<noteq> OutOfFuel \<and> True) (\<lambda>v s'. True \<and> frame s s') (?tr x s)"
        by (rule outcome_conj)
      then show "outcome (\<lambda>e. e \<noteq> OutOfFuel) (\<lambda>v s'. True \<and> frame st s') (?tr x s)"
        by (rule outcome_mono) (auto intro: frame_trans [OF s])
    qed simp_all
  qed simp_all
  show ?case
  proof (cases schema)
    case (JObj kvs)
    show ?thesis
    proof (cases "map_of kvs ''$ref''")
      case None
      then show ?thesis using inline JObj by simp
    next
      case (Some r)
      have unfold: "convertOpenApiSchemaToJsonSchema (Suc n) schema resolveRefs st =
          convert_ref ?tr schema resolveRefs st"
        using Some JObj by simp
      show ?thesis
      proof (cases "\<exists>ref. r = JStr ref")
        case False
        then show ?thesis using Some JObj convert_ref_not_string [of schema] by simp
      next
        case True
        then obtain ref where ref: "js_get schema ''$ref'' = Some (JStr ref)"
          using Some JObj by auto
        show ?thesis
        proof (cases "inline_mode resolveRefs ref")
          case False
          then show ?thesis using unfold convert_ref_preserved [OF ref] by simp
        next
          case True
          note inl = this
          show ?thesis
          proof (cases "cache_miss (snd st) ref")
            case False
            then obtain c where "map_of (schemaCache (snd st)) ref = Some c" "truthy c"
              by (auto simp add: cache_miss_def split: option.splits)
            then show ?thesis using unfold convert_ref_cached [OF ref inl] by simp
          next
            case True
            note miss = this
            show ?thesis
            proof (cases "internalResolveRef (snd st) ref (fst st)")
              case (Pair res rr)
              show ?thesis
              proof (cases res)
                case None
                then show ?thesis using unfold convert_ref_unresolved [OF ref inl miss] Pair by simp
              next
                case (Some resolved)
                have facts: "ref \<notin> fst st" "rr = insert ref (fst st)"
                  "resolve_parts (openApiSpec (snd st)) (split_on CHR ''/'' (replace_prefix ''#/'' [] ref)) = Some resolved"
                  using Pair Some internalResolveRef_Some [of "snd st" ref "fst st" resolved rr] by simp_all
                have "ref \<in> R" using ref_in_all_refs [OF ref] Suc.prems(3) by blast
                then have u: "0 < u \<and> card (R - rr) \<le> u - 1"
                  using card_diff_insert [OF fin _ facts(1) Suc.prems(4)] facts(2) by simp
                have sz: "size resolved \<le> D"
                  using resolve_parts_size [OF facts(3)] Suc.prems(2) by simp
                have "(u - 1) * (D + 1) + (D + 1) = u * (D + 1)"
                  using u by (cases u) simp_all
                then have fuel: "size resolved + 1 + (u - 1) * (D + 1) \<le> n"
                  using sz Suc.prems(5) by simp
                have rec: "outcome (\<lambda>e. e \<noteq> OutOfFuel) (\<lambda>v s'. True) (?tr resolved (rr, snd st))"
                proof (rule Suc.IH [where u = "u - 1"])
                  show "all_refs (openApiSpec (snd (rr, snd st))) \<subseteq> R" using Suc.prems(1) by simp
                  show "size (openApiSpec (snd (rr, snd st))) \<le> D" using Suc.prems(2) by simp
                  show "all_refs resolved \<subseteq> R"
                    using resolve_parts_refs [OF facts(3)] Suc.prems(1) by blast
                  show "card (R - fst (rr, snd st)) \<le> u - 1" using u by simp
                  show "size resolved + 1 + (u - 1) * (D + 1) \<le> n" by (rule fuel)
                qed
                have "outcome (\<lambda>e. e \<noteq> OutOfFuel) (\<lambda>v s'. True)
                    (then_do (?tr resolved (rr, snd st)) (\<lambda>(converted, st'). Inr (converted, store ref converted st')))"
                  using rec by (rule outcome_then_do) simp
                then show ?thesis
                  using unfold convert_ref_resolved [OF ref inl miss] Pair Some by simp
              qed
            qed
          qed
        qed
      qed
    qed
  next
    case (JArr xs)
    then show ?thesis using inline by (simp add: index_of_ref)
  qed simp_all
qed

lemma convert_terminates:
  assumes "size schema + 1 + card (all_refs (openApiSpec this) \<union> all_refs schema) * (size (openApiSpec this) + 1) \<le> n"
  shows "convertOpenApiSchemaToJsonSchema n schema resolveRefs (rr, this) \<noteq> Inl OutOfFuel"
proof -
  let ?R = "all_refs (openApiSpec this) \<union> all_refs schema"
  have fin: "finite ?R" by (simp add: finite_all_refs)
  have "card (?R - rr) \<le> card ?R" using fin by (intro card_mono) auto
  then have "outcome (\<lambda>e. e \<noteq> OutOfFuel) (\<lambda>v s'. True)
      (convertOpenApiSchemaToJsonSchema n schema resolveRefs (rr, this))"
    using assms fin by (intro convert_fuel [where R = ?R and D = "size (openApiSpec this)" and u = "card ?R"]) simp_all
  then show ?thesis
    by (cases "convertOpenApiSchemaToJsonSchema n schema resolveRefs (rr, this)") auto
qed

subsection \<open>References in progress\<close>

text \<open>
  C4, as amended. A reference resolved in place whose pointer misses the cache and
  resolves: the pointer was not in the set, it is added to the set, and the recursive
  call runs on the resolved node with the converter as it was, so without a cache
  entry for the pointer; the entry is written to the state the call returns. A
  reference whose pointer is in the set and misses the cache is not resolved: the
  translation is the placeholder \<^verbatim>\<open>{$ref, description}\<close> and the state does not change;
  this is what ends the translation of a schema that refers to itself. A pointer with a
  truthy cache entry is never expanded: the entry is the translation. With fuel above
  the size of the schema plus, for every pointer of the document and the schema, the
  size of the document, the translator returns.
\<close>

theorem reference_resolution_order:
  "(map_of kvs ''$ref'' = Some (JStr ref) \<longrightarrow> inline_mode resolveRefs ref \<longrightarrow> cache_miss this ref \<longrightarrow>
      internalResolveRef this ref rr = (Some resolved, rr') \<longrightarrow>
        ref \<notin> rr \<and> rr' = insert ref rr \<and>
        convertOpenApiSchemaToJsonSchema (Suc n) (JObj kvs) resolveRefs (rr, this) =
          store_result ref (convertOpenApiSchemaToJsonSchema n resolved resolveRefs (insert ref rr, this)))
   \<and> (map_of kvs ''$ref'' = Some (JStr ref) \<longrightarrow> inline_mode resolveRefs ref \<longrightarrow> cache_miss this ref \<longrightarrow>
        ref \<in> rr \<longrightarrow>
        convertOpenApiSchemaToJsonSchema (Suc n) (JObj kvs) resolveRefs (rr, this) =
          Inr (placeholder (JObj kvs) ref, (rr, this)))
   \<and> (map_of kvs ''$ref'' = Some (JStr ref) \<longrightarrow> inline_mode resolveRefs ref \<longrightarrow>
        map_of (schemaCache this) ref = Some cached \<longrightarrow> truthy cached \<longrightarrow>
        convertOpenApiSchemaToJsonSchema (Suc n) (JObj kvs) resolveRefs (rr, this) = Inr (cached, (rr, this)))
   \<and> (size schema + 1 + card (all_refs (openApiSpec this) \<union> all_refs schema) * (size (openApiSpec this) + 1) \<le> m \<longrightarrow>
        convertOpenApiSchemaToJsonSchema m schema resolveRefs (rr, this) \<noteq> Inl OutOfFuel)"
proof (intro conjI impI)
  assume a: "map_of kvs ''$ref'' = Some (JStr ref)" "inline_mode resolveRefs ref" "cache_miss this ref"
    "internalResolveRef this ref rr = (Some resolved, rr')"
  show "ref \<notin> rr" "rr' = insert ref rr"
    using internalResolveRef_Some [OF a(4)] by simp_all
  then show "convertOpenApiSchemaToJsonSchema (Suc n) (JObj kvs) resolveRefs (rr, this) =
          store_result ref (convertOpenApiSchemaToJsonSchema n resolved resolveRefs (insert ref rr, this))"
    using a convert_ref_resolved [of "JObj kvs" ref resolveRefs "(rr, this)" resolved rr'
        "\<lambda>s. convertOpenApiSchemaToJsonSchema n s resolveRefs"]
    by (simp add: store_result_def)
next
  assume a: "map_of kvs ''$ref'' = Some (JStr ref)" "inline_mode resolveRefs ref" "cache_miss this ref"
    "ref \<in> rr"
  then show "convertOpenApiSchemaToJsonSchema (Suc n) (JObj kvs) resolveRefs (rr, this) =
          Inr (placeholder (JObj kvs) ref, (rr, this))"
    using convert_ref_unresolved [of "JObj kvs" ref resolveRefs "(rr, this)"
        "\<lambda>s. convertOpenApiSchemaToJsonSchema n s resolveRefs"]
      internalResolveRef_in_progress [of ref rr this]
    by simp
next
  assume "map_of kvs ''$ref'' = Some (JStr ref)" "inline_mode resolveRefs ref"
    "map_of (schemaCache this) ref = Some cached" "truthy cached"
  then show "convertOpenApiSchemaToJsonSchema (Suc n) (JObj kvs) resolveRefs (rr, this) = Inr (cached, (rr, this))"
    using convert_ref_cached [of "JObj kvs" ref resolveRefs "(rr, this)" cached] by simp
next
  assume "size schema + 1 + card (all_refs (openApiSpec this) \<union> all_refs schema) * (size (openApiSpec this) + 1) \<le> m"
  then show "convertOpenApiSchemaToJsonSchema m schema resolveRefs (rr, this) \<noteq> Inl OutOfFuel"
    by (rule convert_terminates)
qed

lemma node_refs: "all_refs node_document \<union> all_refs node_ref = {''#/components/schemas/Node''}"
  by (auto simp add: node_document_def node_ref_def node_schema_def)

lemma node_bound:
  "size node_ref + 1 + card (all_refs (openApiSpec (new_converter node_document)) \<union> all_refs node_ref)
      * (size (openApiSpec (new_converter node_document)) + 1) \<le> 40"
  by (simp add: new_converter_def node_refs) (simp add: node_document_def node_ref_def node_schema_def)

theorem reference_resolution_order_witness:
  "convertOpenApiSchemaToJsonSchema 3 node_ref True ({}, new_converter node_document)
       = store_result ''#/components/schemas/Node''
           (convertOpenApiSchemaToJsonSchema 2 node_schema True
              ({''#/components/schemas/Node''}, new_converter node_document))
   \<and> convertOpenApiSchemaToJsonSchema 1 node_ref True ({''#/components/schemas/Node''}, new_converter node_document)
       = Inr (node_placeholder, ({''#/components/schemas/Node''}, new_converter node_document))
   \<and> convertOpenApiSchemaToJsonSchema 40 node_ref True ({}, new_converter node_document) \<noteq> Inl OutOfFuel"
proof -
  let ?ptr = "''#/components/schemas/Node''"
  let ?c = "new_converter node_document"
  have ref: "map_of [(''$ref'', JStr ?ptr)] ''$ref'' = Some (JStr ?ptr)" by simp
  have inl: "inline_mode True ?ptr" by (simp add: inline_mode_def)
  have miss: "cache_miss ?c ?ptr" by (simp add: cache_miss_def new_converter_def)
  have res: "internalResolveRef ?c ?ptr {} = (Some node_schema, {?ptr})" by code_simp
  have again: "?ptr \<in> {?ptr}" by simp
  have ph: "placeholder (JObj [(''$ref'', JStr ?ptr)]) ?ptr = node_placeholder" by code_simp
  note inst = reference_resolution_order [where kvs = "[(''$ref'', JStr ?ptr)]" and ref = ?ptr
      and resolveRefs = True and this = ?c and schema = node_ref and m = 40]
  from inst [where rr = "{}" and resolved = node_schema and rr' = "{?ptr}" and n = 2] ref inl miss res
  have one: "convertOpenApiSchemaToJsonSchema (Suc 2) (JObj [(''$ref'', JStr ?ptr)]) True ({}, ?c) =
      store_result ?ptr (convertOpenApiSchemaToJsonSchema 2 node_schema True (insert ?ptr {}, ?c))"
    by blast
  from inst [where rr = "{?ptr}" and n = 0] ref inl miss again
  have two: "convertOpenApiSchemaToJsonSchema (Suc 0) (JObj [(''$ref'', JStr ?ptr)]) True ({?ptr}, ?c) =
      Inr (placeholder (JObj [(''$ref'', JStr ?ptr)]) ?ptr, ({?ptr}, ?c))"
    by blast
  from inst [where rr = "{}"] node_bound
  have three: "convertOpenApiSchemaToJsonSchema 40 node_ref True ({}, ?c) \<noteq> Inl OutOfFuel"
    by blast
  have s3: "Suc 2 = 3" by simp
  show ?thesis
    using one two three unfolding ph s3 by (simp add: node_ref_def)
qed

text \<open>
  C4 as stated fails on a schema that refers to itself. The recursive call that
  translates the schema \<^verbatim>\<open>Node\<close> starts from the empty cache of the new converter; the
  inner reference to \<^verbatim>\<open>Node\<close> is translated in the state of the second equation, where it
  becomes the placeholder and not a cache entry; the entry is there when the outer
  call has returned.
\<close>

theorem self_reference_counterexample:
  "schemaCache (new_converter node_document) = []
   \<and> convertOpenApiSchemaToJsonSchema 3 node_ref True ({}, new_converter node_document)
       = store_result ''#/components/schemas/Node''
           (convertOpenApiSchemaToJsonSchema 2 node_schema True
              ({''#/components/schemas/Node''}, new_converter node_document))
   \<and> convertOpenApiSchemaToJsonSchema 1 node_ref True ({''#/components/schemas/Node''}, new_converter node_document)
       = Inr (node_placeholder, ({''#/components/schemas/Node''}, new_converter node_document))
   \<and> convertOpenApiSchemaToJsonSchema 3 node_ref True ({}, new_converter node_document)
       = Inr (node_translation,
              ({''#/components/schemas/Node''},
               (new_converter node_document)\<lparr>schemaCache := [(''#/components/schemas/Node'', node_translation)]\<rparr>))
   \<and> node_placeholder \<noteq> node_translation"
  by code_simp

subsection \<open>Binary format\<close>









subsection \<open>Recovery of one serialised argument\<close>

lemma recover_string_settled: "\<not> recovers parse s \<Longrightarrow> recover_string recurse parse s = Inr None"
  by (auto simp add: recovers_def recover_string_def split: option.splits)

lemma recover_item_settled: "settled_item parse item \<Longrightarrow> recover_item recurse parse item = Inr item"
  by (cases item) (simp_all add: settled_item_def recover_item_def recover_string_settled)

lemma map_res_id: "(\<And>x. x \<in> set xs \<Longrightarrow> f x = Inr x) \<Longrightarrow> map_res f xs = Inr xs"
  by (induction xs) simp_all

lemma recover_entry_settled:
  "settled_value parse v \<Longrightarrow> recover_entry recurse parse (k, v) result = Inr (obj_set k v result)"
proof (cases v)
  case (JStr s)
  assume "settled_value parse v"
  then show ?thesis using JStr by (simp add: settled_value_def recover_entry_def recover_string_settled)
next
  case (JArr items)
  assume "settled_value parse v"
  then have "map_res (recover_item recurse parse) items = Inr items"
    using JArr by (intro map_res_id recover_item_settled) (simp add: settled_value_def list_all_iff)
  then show ?thesis using JArr by (simp add: recover_entry_def)
qed (simp_all add: recover_entry_def)

lemma update_append_fresh: "k \<notin> fst ` set al \<Longrightarrow> AList.update k v al = al @ [(k, v)]"
  by (induction al) auto

lemma for_each_settled:
  assumes "distinct (map fst kvs)" "''__proto__'' \<notin> set (map fst kvs)"
    and "list_all (\<lambda>kv. settled_value parse (snd kv)) kvs"
    and "fst ` set acc \<inter> set (map fst kvs) = {}"
  shows "for_each (recover_entry recurse parse) kvs acc = Inr (acc @ kvs)"
  using assms
proof (induction kvs arbitrary: acc)
  case Nil
  then show ?case by simp
next
  case (Cons kv kvs)
  obtain k v where kv: "kv = (k, v)" by (cases kv)
  have fresh: "k \<notin> fst ` set acc" using Cons.prems(4) kv by auto
  have step: "recover_entry recurse parse kv acc = Inr (acc @ [(k, v)])"
    using Cons.prems(2,3) kv fresh
    by (auto simp add: recover_entry_settled obj_set_def update_append_fresh)
  have "for_each (recover_entry recurse parse) kvs (acc @ [(k, v)]) = Inr ((acc @ [(k, v)]) @ kvs)"
  proof (rule Cons.IH)
    show "distinct (map fst kvs)" using Cons.prems(1) by simp
    show "''__proto__'' \<notin> set (map fst kvs)" using Cons.prems(2) by simp
    show "list_all (\<lambda>kv. settled_value parse (snd kv)) kvs" using Cons.prems(3) by simp
    show "fst ` set (acc @ [(k, v)]) \<inter> set (map fst kvs) = {}"
      using Cons.prems(1,4) kv by auto
  qed
  then show ?case using step kv by simp
qed

lemma deserializeParams_settled:
  "settled parse kvs \<Longrightarrow> deserializeParams (Suc n) parse (JObj kvs) = Inr (JObj kvs)"
  using for_each_settled [of kvs parse "[]" "deserializeParams n parse"]
  by (simp add: settled_def)

lemma trim_id:
  assumes "s \<noteq> []" "\<not> is_space (hd s)" "\<not> is_space (last s)"
  shows "trim s = s"
proof -
  have "dropWhile is_space s = s" using assms(1,2) by (cases s) simp_all
  moreover have "dropWhile is_space (rev s) = rev s"
    using assms(1,3) by (cases "rev s") (simp_all add: hd_rev [symmetric])
  ultimately show ?thesis by (simp add: trim_def)
qed

lemma looks_like_json_delimited:
  assumes "(c = CHR ''{'' \<and> d = CHR ''}'') \<or> (c = CHR ''['' \<and> d = CHR '']'')"
  shows "looks_like_json (c # body @ [d])"
proof -
  have "trim (c # body @ [d]) = c # body @ [d]"
    using assms by (intro trim_id) (auto simp add: is_space_def)
  moreover have "drop (length body) (body @ [d]) = [d]" by simp
  ultimately show ?thesis
    using assms by (auto simp add: looks_like_json_def startsWith_def endsWith_def)
qed

lemma looks_like_json_object: "looks_like_json (JSON_stringify (JObj kvs))"
  using looks_like_json_delimited [of "CHR ''{''" "CHR ''}''"] by simp

lemma looks_like_json_array: "looks_like_json (JSON_stringify (JArr xs))"
  using looks_like_json_delimited [of "CHR ''[''" "CHR '']''"] by simp

lemma deserialize_single:
  "x \<noteq> ''__proto__'' \<Longrightarrow>
   deserializeParams (Suc n) parse (JObj [(x, JStr s)]) =
     then_do (recover_string (deserializeParams n parse) parse s)
       (\<lambda>r. Inr (JObj [(x, case r of Some v \<Rightarrow> v | None \<Rightarrow> JStr s)]))"
  by (cases "recover_string (deserializeParams n parse) parse s")
     (simp_all add: recover_entry_def obj_set_def)

lemma deserialize_recovered_array:
  assumes "x \<noteq> ''__proto__''" "looks_like_json s" "parse s = Some (JArr xs)"
  shows "deserializeParams (Suc n) parse (JObj [(x, JStr s)]) = Inr (JObj [(x, JArr xs)])"
proof -
  have "recover_string (deserializeParams n parse) parse s = Inr (Some (JArr xs))"
    using assms(2,3) by (simp add: recover_string_def is_object_def)
  then show ?thesis
    by (subst deserialize_single [OF assms(1)]) simp
qed

lemma deserialize_recovered_object:
  assumes "x \<noteq> ''__proto__''" "looks_like_json s" "parse s = Some (JObj kvs)"
  shows "deserializeParams (Suc n) parse (JObj [(x, JStr s)]) = under_key x (deserializeParams n parse (JObj kvs))"
proof -
  have "recover_string (deserializeParams n parse) parse s
      = then_do (deserializeParams n parse (JObj kvs)) (\<lambda>r. Inr (Some r))"
    using assms(2,3) by (simp add: recover_string_def is_object_def)
  then show ?thesis
    unfolding under_key_def
    by (subst deserialize_single [OF assms(1)]) (cases "deserializeParams n parse (JObj kvs)", simp_all)
qed

lemma deserialize_kept:
  assumes "x \<noteq> ''__proto__''" "\<not> looks_like_json s \<or> parse s = None"
  shows "deserializeParams (Suc n) parse (JObj [(x, JStr s)]) = Inr (JObj [(x, JStr s)])"
proof -
  have "recover_string (deserializeParams n parse) parse s = Inr None"
    using assms(2) by (auto simp add: recover_string_def)
  then show ?thesis
    by (subst deserialize_single [OF assms(1)]) simp
qed

text \<open>
  C3, as amended. Argument recovery on \<^verbatim>\<open>{x: JSON.stringify(o)}\<close>, for a key \<^verbatim>\<open>x\<close> other
  than \<^verbatim>\<open>__proto__\<close> and a parser that reads the text back as \<^verbatim>\<open>o\<close>: when \<^verbatim>\<open>o\<close> is an
  array the entry \<^verbatim>\<open>x\<close> of the result is \<^verbatim>\<open>o\<close>; when \<^verbatim>\<open>o\<close> is an object the entry is the
  recovery of \<^verbatim>\<open>o\<close>, and it is \<^verbatim>\<open>o\<close> when the entries of \<^verbatim>\<open>o\<close> are settled: no value of \<^verbatim>\<open>o\<close>
  is a bracket-delimited text that parses to an object or an array, no element of an
  array-valued entry is one, and \<^verbatim>\<open>o\<close> has no entry \<^verbatim>\<open>__proto__\<close>. A text that is not
  bracket-delimited after trimming, or that does not parse, is returned unchanged.
\<close>

theorem recovery_round_trip:
  assumes key: "x \<noteq> ''__proto__''"
  shows "(parse (JSON_stringify (JArr xs)) = Some (JArr xs) \<longrightarrow>
           deserializeParams (Suc n) parse (JObj [(x, JStr (JSON_stringify (JArr xs)))]) = Inr (JObj [(x, JArr xs)]))
       \<and> (parse (JSON_stringify (JObj kvs)) = Some (JObj kvs) \<longrightarrow>
           deserializeParams (Suc n) parse (JObj [(x, JStr (JSON_stringify (JObj kvs)))])
             = under_key x (deserializeParams n parse (JObj kvs)))
       \<and> (parse (JSON_stringify (JObj kvs)) = Some (JObj kvs) \<longrightarrow> settled parse kvs \<longrightarrow>
           deserializeParams (Suc (Suc n)) parse (JObj [(x, JStr (JSON_stringify (JObj kvs)))])
             = Inr (JObj [(x, JObj kvs)]))
       \<and> (\<not> looks_like_json s \<or> parse s = None \<longrightarrow>
           deserializeParams (Suc n) parse (JObj [(x, JStr s)]) = Inr (JObj [(x, JStr s)]))"
proof (intro conjI impI)
  assume "parse (JSON_stringify (JArr xs)) = Some (JArr xs)"
  with key looks_like_json_array [of xs]
  show "deserializeParams (Suc n) parse (JObj [(x, JStr (JSON_stringify (JArr xs)))]) = Inr (JObj [(x, JArr xs)])"
    by (rule deserialize_recovered_array)
next
  assume p: "parse (JSON_stringify (JObj kvs)) = Some (JObj kvs)"
  with key looks_like_json_object [of kvs]
  show "deserializeParams (Suc n) parse (JObj [(x, JStr (JSON_stringify (JObj kvs)))])
             = under_key x (deserializeParams n parse (JObj kvs))"
    by (rule deserialize_recovered_object)
  assume "settled parse kvs"
  then have "deserializeParams (Suc n) parse (JObj kvs) = Inr (JObj kvs)"
    by (rule deserializeParams_settled)
  then show "deserializeParams (Suc (Suc n)) parse (JObj [(x, JStr (JSON_stringify (JObj kvs)))])
             = Inr (JObj [(x, JObj kvs)])"
    using deserialize_recovered_object [where parse = parse and s = "JSON_stringify (JObj kvs)"
        and kvs = kvs and x = x and n = "Suc n", OF key looks_like_json_object p]
    by (simp add: under_key_def)
next
  assume "\<not> looks_like_json s \<or> parse s = None"
  with key show "deserializeParams (Suc n) parse (JObj [(x, JStr s)]) = Inr (JObj [(x, JStr s)])"
    by (rule deserialize_kept)
qed

text \<open>
  The four cases on the parser of the model: an object with a number, a text and an
  array; an array holding a text that would itself be recovered; a plain text; a
  bracket-delimited text that is not JSON.
\<close>

theorem recovery_round_trip_witness:
  "deserializeParams 2 JSON_parse (JObj [(''x'', JStr (JSON_stringify (JObj plain_object_entries)))])
     = Inr (JObj [(''x'', JObj plain_object_entries)])
   \<and> deserializeParams 1 JSON_parse (JObj [(''x'', JStr (JSON_stringify (JArr text_array)))])
     = Inr (JObj [(''x'', JArr text_array)])
   \<and> deserializeParams 1 JSON_parse (JObj [(''x'', JStr ''plain text'')]) = Inr (JObj [(''x'', JStr ''plain text'')])
   \<and> deserializeParams 1 JSON_parse (JObj [(''x'', JStr ''{ not valid json }'')])
     = Inr (JObj [(''x'', JStr ''{ not valid json }'')])"
proof -
  have key: "''x'' \<noteq> ''__proto__''" by simp
  have obj: "JSON_parse (JSON_stringify (JObj plain_object_entries)) = Some (JObj plain_object_entries)"
    by code_simp
  have arr: "JSON_parse (JSON_stringify (JArr text_array)) = Some (JArr text_array)"
    by code_simp
  have settled: "settled JSON_parse plain_object_entries"
    by code_simp
  have plain: "\<not> looks_like_json ''plain text'' \<or> JSON_parse ''plain text'' = None"
    by code_simp
  have invalid: "\<not> looks_like_json ''{ not valid json }'' \<or> JSON_parse ''{ not valid json }'' = None"
    by code_simp
  note inst = recovery_round_trip [OF key, where parse = JSON_parse and kvs = plain_object_entries
      and xs = text_array and n = 0]
  have s1: "(2::nat) = Suc (Suc 0)" "(1::nat) = Suc 0" by simp_all
  from inst [where s = "''plain text''"] obj arr settled plain
  have "deserializeParams (Suc (Suc 0)) JSON_parse (JObj [(''x'', JStr (JSON_stringify (JObj plain_object_entries)))])
       = Inr (JObj [(''x'', JObj plain_object_entries)])
     \<and> deserializeParams (Suc 0) JSON_parse (JObj [(''x'', JStr (JSON_stringify (JArr text_array)))])
       = Inr (JObj [(''x'', JArr text_array)])
     \<and> deserializeParams (Suc 0) JSON_parse (JObj [(''x'', JStr ''plain text'')]) = Inr (JObj [(''x'', JStr ''plain text'')])"
    by blast
  moreover from inst [where s = "''{ not valid json }''"] invalid
  have "deserializeParams (Suc 0) JSON_parse (JObj [(''x'', JStr ''{ not valid json }'')])
     = Inr (JObj [(''x'', JStr ''{ not valid json }'')])"
    by blast
  ultimately show ?thesis unfolding s1 by blast
qed

text \<open>
  C3 as stated fails on an object one of whose values is the text of an object: the
  text is read back by the parser, but recovery descends into the parsed object and
  replaces the inner text by the object it denotes.
\<close>

theorem recovery_round_trip_counterexample:
  "JSON_parse (JSON_stringify nested_text_object) = Some nested_text_object
   \<and> deserializeParams 3 JSON_parse (JObj [(''x'', JStr (JSON_stringify nested_text_object))])
       = Inr (JObj [(''x'', JObj [(''a'', JObj [(''b'', JNum 1)])])])
   \<and> JObj [(''a'', JObj [(''b'', JNum 1)])] \<noteq> nested_text_object"
  by code_simp

subsection \<open>Name assignment\<close>

lemma bare_operation_tool:
  assumes "operationId \<noteq> []" and "js_get (openApiSpec this) ''components'' = None"
  shows "convertOperationToMCPMethod n (bare_operation operationId) http_method path this
         = Inr (Some (bare_tool operationId), this)"
  using assms
  by (simp add: convertOperationToMCPMethod_def bare_operation_def bare_tool_def
      convertComponentsToJsonSchema_def or_empty_def build_description_def extractResponseType_def
      or_else_def or_blank_def opt_get_def)

lemma length_digits: "0 < k \<Longrightarrow> n < 10 ^ k \<Longrightarrow> length (digits n) \<le> k"
proof (induction k arbitrary: n)
  case 0
  then show ?case by simp
next
  case (Suc k)
  show ?case
  proof (cases "n < 10")
    case True
    then show ?thesis by (simp add: digits.simps [of n])
  next
    case False
    then have k: "0 < k" using Suc.prems by (cases k) auto
    have "n div 10 < 10 ^ k" using Suc.prems by (simp add: less_mult_imp_div_less mult.commute)
    then have "length (digits (n div 10)) \<le> k" using k by (rule Suc.IH [rotated])
    then show ?thesis using False by (simp add: digits.simps [of n])
  qed
qed

lemma length_padStart: "length (padStart n s) = max n (length s)"
  by (simp add: padStart_def)

lemma digit_value_digit_char: "d < 10 \<Longrightarrow> digit_value (digit_char d) = d"
proof -
  assume "d < 10"
  then have "d \<in> set [0..<10]" by simp
  moreover have "\<forall>d \<in> set [0..<10]. digit_value (digit_char d) = d" by code_simp
  ultimately show ?thesis by blast
qed

lemma decimal_value_snoc: "decimal_value (ds @ [c]) = 10 * decimal_value ds + digit_value c"
  by (simp add: decimal_value_def)

lemma decimal_value_digits: "decimal_value (digits n) = n"
proof (induction n rule: digits.induct)
  case (1 n)
  show ?case
  proof (cases "n < 10")
    case True
    then show ?thesis
      by (simp add: digits.simps [of n] decimal_value_def digit_value_digit_char)
  next
    case False
    then show ?thesis using 1
      by (simp add: digits.simps [of n] decimal_value_snoc digit_value_digit_char)
  qed
qed

lemma decimal_value_zeros: "decimal_value (replicate m CHR ''0'' @ ds) = decimal_value ds"
proof -
  have z: "digit_value CHR ''0'' = 0" by code_simp
  have "foldl (\<lambda>acc c. 10 * acc + digit_value c) 0 (replicate m CHR ''0'') = 0"
    by (induction m) (simp_all add: z)
  then show ?thesis by (simp add: decimal_value_def)
qed

lemma decimal_value_suffix: "decimal_value (padStart m (digits n)) = n"
  by (simp add: padStart_def decimal_value_zeros decimal_value_digits)

lemma is_digit_suffix: "list_all is_digit (padStart m (digits n))"
proof -
  have z: "is_digit CHR ''0''" by code_simp
  have d: "\<forall>c \<in> set (digits n). is_digit c"
    unfolding is_digit_def using digits_chars [of n] by blast
  show ?thesis using z d by (auto simp add: padStart_def list_all_iff)
qed

lemma ensureUniqueName_short: "length name \<le> 64 \<Longrightarrow> ensureUniqueName name c = (name, c)"
  by (simp add: ensureUniqueName_def)

lemma ensureUniqueName_long:
  "64 < length name \<Longrightarrow>
   ensureUniqueName name c
   = (take 59 name @ ''-'' @ padStart 4 (digits (nameCounter c + 1)), c\<lparr>nameCounter := nameCounter c + 1\<rparr>)"
  by (simp add: ensureUniqueName_def generateUniqueSuffix_def Let_def)

lemma bare_document_parts:
  "js_get (bare_document ps) ''components'' = None"
  "js_get (bare_document ps) ''paths'' = Some (JObj ps)"
  "getDescription (c\<lparr>openApiSpec := bare_document ps\<rparr>) d = Inr d"
  by (simp_all add: bare_document_def getDescription_def)

lemma bare_operation_step:
  assumes op: "isOperation http_method" and oid: "operationId \<noteq> []"
    and doc: "openApiSpec (cat_conv cat) = bare_document ps"
  shows "operation_step n path (http_method, bare_operation operationId) cat =
     (case ensureUniqueName operationId (cat_conv cat) of (uniqueName, this2) \<Rightarrow>
        Inr (cat\<lparr>methods := methods cat @ [bare_tool uniqueName],
                openApiLookup := AList.update (apiName @ ''-'' @ uniqueName)
                   (with_method_path (bare_operation operationId) http_method path) (openApiLookup cat),
                zip_table := AList.update (apiName @ ''-'' @ uniqueName)
                   (with_method_path (bare_operation operationId) http_method path, bare_tool uniqueName)
                   (zip_table cat),
                cat_conv := this2\<rparr>))"
proof -
  have c: "js_get (openApiSpec (cat_conv cat)) ''components'' = None"
    using doc by (simp add: bare_document_parts)
  have d: "getDescription this2 [] = Inr []" if "openApiSpec this2 = bare_document ps" for this2
    using that by (simp add: bare_document_def getDescription_def)
  have s: "openApiSpec (snd (ensureUniqueName operationId (cat_conv cat))) = bare_document ps"
    using doc by (simp add: ensureUniqueName_def generateUniqueSuffix_def Let_def)
  obtain u t where e: "ensureUniqueName operationId (cat_conv cat) = (u, t)"
    by (cases "ensureUniqueName operationId (cat_conv cat)")
  with s have "openApiSpec t = bare_document ps" by simp
  then have "getDescription t [] = Inr []" by (rule d)
  then show ?thesis
    using op e
    by (simp add: operation_step_def bare_operation_tool [OF oid c] bare_tool_def Let_def)
qed

lemma isOperation_get: "isOperation ''get''"
  by code_simp

lemma long_path_step:
  assumes doc: "openApiSpec (cat_conv cat) = bare_document ps"
  shows "path_step n (long_path i) cat =
     Inr (cat\<lparr>methods := methods cat @ [bare_tool (suffixed (nameCounter (cat_conv cat) + 1))],
             openApiLookup := AList.update (apiName @ ''-'' @ suffixed (nameCounter (cat_conv cat) + 1))
                (with_method_path (bare_operation (long_id i)) ''get'' (''/'' @ digits i)) (openApiLookup cat),
             zip_table := AList.update (apiName @ ''-'' @ suffixed (nameCounter (cat_conv cat) + 1))
                (with_method_path (bare_operation (long_id i)) ''get'' (''/'' @ digits i),
                 bare_tool (suffixed (nameCounter (cat_conv cat) + 1)))
                (zip_table cat),
             cat_conv := (cat_conv cat)\<lparr>nameCounter := nameCounter (cat_conv cat) + 1\<rparr>\<rparr>)"
proof -
  have l: "64 < length (long_id i)" by (simp add: long_id_def)
  have n: "long_id i \<noteq> []" using l by auto
  have t: "take 59 (long_id i) = replicate 59 CHR ''a''" by (simp add: long_id_def)
  show ?thesis
    by (simp add: path_step_def long_path_def bare_operation_step [OF isOperation_get n doc]
        ensureUniqueName_long [OF l] t suffixed_def)
qed

lemma long_paths_build:
  assumes "openApiSpec (cat_conv cat) = bare_document ps"
  shows "\<exists>cat'. for_each (path_step n) (map long_path js) cat = Inr cat' \<and>
           map tool_name (methods cat')
           = map tool_name (methods cat) @ map (\<lambda>j. suffixed (nameCounter (cat_conv cat) + j + 1)) [0..<length js]"
  using assms
proof (induction js arbitrary: cat)
  case Nil
  then show ?case by simp
next
  case (Cons i js)
  let ?c = "cat\<lparr>methods := methods cat @ [bare_tool (suffixed (nameCounter (cat_conv cat) + 1))],
             openApiLookup := AList.update (apiName @ ''-'' @ suffixed (nameCounter (cat_conv cat) + 1))
                (with_method_path (bare_operation (long_id i)) ''get'' (''/'' @ digits i)) (openApiLookup cat),
             zip_table := AList.update (apiName @ ''-'' @ suffixed (nameCounter (cat_conv cat) + 1))
                (with_method_path (bare_operation (long_id i)) ''get'' (''/'' @ digits i),
                 bare_tool (suffixed (nameCounter (cat_conv cat) + 1)))
                (zip_table cat),
             cat_conv := (cat_conv cat)\<lparr>nameCounter := nameCounter (cat_conv cat) + 1\<rparr>\<rparr>"
  have step: "path_step n (long_path i) cat = Inr ?c"
    by (rule long_path_step [OF Cons.prems])
  have "openApiSpec (cat_conv ?c) = bare_document ps" using Cons.prems by simp
  from Cons.IH [OF this] obtain cat' where
    r: "for_each (path_step n) (map long_path js) ?c = Inr cat'" and
    m: "map tool_name (methods cat')
        = map tool_name (methods ?c) @ map (\<lambda>j. suffixed (nameCounter (cat_conv ?c) + j + 1)) [0..<length js]"
    by blast
  have "for_each (path_step n) (map long_path (i # js)) cat = Inr cat'"
    using step r by simp
  moreover have "map tool_name (methods cat')
     = map tool_name (methods cat) @ map (\<lambda>j. suffixed (nameCounter (cat_conv cat) + j + 1)) [0..<length (i # js)]"
    using m by (simp add: map_upt_Suc bare_tool_def del: upt_Suc)
  ultimately show ?case by blast
qed

lemma long_document_names:
  "tool_names (convertToMCPTools n (new_converter (long_document k))) = Inr (map (\<lambda>j. suffixed (j + 1)) [0..<k])"
proof -
  let ?cat = "\<lparr>methods = [], openApiLookup = [], zip_table = [], cat_conv = new_converter (long_document k)\<rparr>"
  have "openApiSpec (cat_conv ?cat) = bare_document (map long_path [0..<k])"
    by (simp add: new_converter_def long_document_def)
  from long_paths_build [OF this, of n "[0..<k]"] obtain cat' where
    "for_each (path_step n) (map long_path [0..<k]) ?cat = Inr cat'"
    "map tool_name (methods cat') = map (\<lambda>j. suffixed (j + 1)) [0..<k]"
    by (auto simp add: new_converter_def)
  then show ?thesis
    by (simp add: tool_names_def convertToMCPTools_def new_converter_def long_document_def
        bare_document_parts or_empty_def)
qed

lemma single_long_document_names:
  "tool_names (convertToMCPTools n (new_converter single_long_document)) = Inr [replicate 59 CHR ''a'' @ ''-0001'']"
proof -
  let ?cat = "\<lparr>methods = [], openApiLookup = [], zip_table = [], cat_conv = new_converter single_long_document\<rparr>"
  have doc: "openApiSpec (cat_conv ?cat) = bare_document [(''/x'', JObj [(''get'', bare_operation (replicate 65 CHR ''a''))])]"
    by (simp add: new_converter_def single_long_document_def)
  have l: "64 < length (replicate 65 CHR ''a'')" by simp
  have n: "replicate 65 CHR ''a'' \<noteq> []" by simp
  have d: "padStart 4 (digits (Suc 0)) = ''0001''" by code_simp
  show ?thesis
    by (simp add: tool_names_def convertToMCPTools_def single_long_document_def new_converter_def
        bare_document_parts or_empty_def path_step_def
        bare_operation_step [OF isOperation_get n doc, simplified new_converter_def single_long_document_def]
        ensureUniqueName_long [OF l] bare_tool_def d)
qed

lemma digits_10000: "digits 10000 = ''10000''"
  by (simp add: digits.simps [of 10000] digits.simps [of 1000] digits.simps [of 100]
      digits.simps [of 10] digits.simps [of "Suc 0"] digit_char_def)

text \<open>
  One call of \<^verbatim>\<open>ensureUniqueName\<close>. An identifier of at most 64 characters is the name,
  and the counter is not touched. An identifier of more than 64 characters gets its
  first 59 characters, a hyphen and the counter after its increment, written in
  decimal and padded with zeros to four digits at least. While the counter is below
  9999 the name has 64 characters.
\<close>

lemma ensureUniqueName_cases:
  "(length name \<le> 64 \<longrightarrow> ensureUniqueName name c = (name, c))
   \<and> (64 < length name \<longrightarrow>
        ensureUniqueName name c
          = (take 59 name @ ''-'' @ padStart 4 (digits (nameCounter c + 1)),
             c\<lparr>nameCounter := nameCounter c + 1\<rparr>)
        \<and> list_all is_digit (padStart 4 (digits (nameCounter c + 1)))
        \<and> decimal_value (padStart 4 (digits (nameCounter c + 1))) = nameCounter c + 1)
   \<and> (64 < length name \<longrightarrow> nameCounter c < 9999 \<longrightarrow>
        length (padStart 4 (digits (nameCounter c + 1))) = 4
        \<and> length (fst (ensureUniqueName name c)) = 64)
   \<and> (nameCounter c < 9999 \<longrightarrow> length (fst (ensureUniqueName name c)) \<le> 64)
   \<and> nameCounter c \<le> nameCounter (snd (ensureUniqueName name c))
   \<and> tool_names (convertToMCPTools n (new_converter single_long_document))
        = Inr [replicate 59 CHR ''a'' @ ''-0001'']"
proof -
  have four: "length (padStart 4 (digits (nameCounter c + 1))) = 4" if "nameCounter c < 9999"
  proof -
    have "nameCounter c + 1 < 10 ^ 4" using that by simp
    then have "length (digits (nameCounter c + 1)) \<le> 4" by (intro length_digits) simp_all
    then show ?thesis by (simp add: length_padStart)
  qed
  have long: "length (fst (ensureUniqueName name c)) = 64" if "64 < length name" "nameCounter c < 9999"
    using that four by (simp add: ensureUniqueName_long)
  have bound: "length (fst (ensureUniqueName name c)) \<le> 64" if "nameCounter c < 9999"
    using that long by (cases "length name \<le> 64") (simp_all add: ensureUniqueName_short)
  have mono: "nameCounter c \<le> nameCounter (snd (ensureUniqueName name c))"
    by (cases "length name \<le> 64") (simp_all add: ensureUniqueName_short ensureUniqueName_long)
  show ?thesis
    using four long bound mono
    by (simp add: ensureUniqueName_short ensureUniqueName_long is_digit_suffix decimal_value_suffix
        single_long_document_names del: One_nat_def)
qed

lemma digits_9999: "digits 9999 = ''9999''"
  by (simp add: digits.simps [of 9999] digits.simps [of 999] digits.simps [of 99]
      digits.simps [of 9] digit_char_def)

text \<open>
  C6 does not hold of the code. In one build the counter is the number of the names
  truncated so far: the document of \<open>k\<close> operations with identifiers of more than 64
  characters gets the names numbered from 1 to \<open>k\<close>. For the document whose only
  operation has the identifier \<^verbatim>\<open>"a".repeat(65)\<close> that is the one name ending in
  \<^verbatim>\<open>-0001\<close>. With ten thousand operations the name before the last ends in \<^verbatim>\<open>-9999\<close> and
  has 64 characters; for the last the counter is 10000, \<^verbatim>\<open>padStart(4, '0')\<close> leaves its
  five digits, and the name has 65 characters, one more than the space that
  \<^verbatim>\<open>slice(0, 64 - 5)\<close> reserves.
\<close>

theorem truncated_names_of_a_build:
  "tool_names (convertToMCPTools n (new_converter (long_document k)))
     = Inr (map (\<lambda>j. replicate 59 CHR ''a'' @ ''-'' @ padStart 4 (digits (j + 1))) [0..<k])
   \<and> tool_names (convertToMCPTools n (new_converter single_long_document))
     = Inr [replicate 59 CHR ''a'' @ ''-0001'']
   \<and> name_at 9998 (tool_names (convertToMCPTools n (new_converter (long_document 10000))))
     = Some (replicate 59 CHR ''a'' @ ''-9999'')
   \<and> length (replicate 59 CHR ''a'' @ ''-9999'') = 64
   \<and> name_at 9999 (tool_names (convertToMCPTools n (new_converter (long_document 10000))))
     = Some (replicate 59 CHR ''a'' @ ''-10000'')
   \<and> length (replicate 59 CHR ''a'' @ ''-10000'') = 65"
proof -
  have s: "suffixed 10000 = replicate 59 CHR ''a'' @ ''-10000''"
    by (simp add: suffixed_def digits_10000 padStart_def)
  have s': "suffixed 9999 = replicate 59 CHR ''a'' @ ''-9999''"
    by (simp add: suffixed_def digits_9999 padStart_def)
  have e: "map (\<lambda>j. suffixed (j + 1)) [0..<10000] ! 9999 = suffixed (0 + 9999 + 1)"
    by (rule nth_map_upt) simp
  have e': "map (\<lambda>j. suffixed (j + 1)) [0..<10000] ! 9998 = suffixed (0 + 9998 + 1)"
    by (rule nth_map_upt) simp
  have l: "length (map (\<lambda>j. suffixed (j + 1)) [0..<10000]) = 10000"
    by (simp only: length_map length_upt)
  have last: "name_at 9999 (tool_names (convertToMCPTools n (new_converter (long_document 10000))))
     = Some (replicate 59 CHR ''a'' @ ''-10000'')"
    unfolding long_document_names name_at_def sum.case l e by (simp add: s)
  have before: "name_at 9998 (tool_names (convertToMCPTools n (new_converter (long_document 10000))))
     = Some (replicate 59 CHR ''a'' @ ''-9999'')"
    unfolding long_document_names name_at_def sum.case l e' by (simp add: s')
  have every: "tool_names (convertToMCPTools n (new_converter (long_document k)))
     = Inr (map (\<lambda>j. replicate 59 CHR ''a'' @ ''-'' @ padStart 4 (digits (j + 1))) [0..<k])"
    unfolding long_document_names suffixed_def by (rule refl)
  show ?thesis
    using every single_long_document_names [of n] before last by simp
qed

subsection \<open>Listed names and lookup keys\<close>

lemma single_long_document_proxy:
  "new_MCPProxy n single_long_document =
     Inr \<lparr>tools = [(apiName, [bare_tool (replicate 59 CHR ''a'' @ ''-0001'')])],
          lookup = [(apiName @ ''-'' @ replicate 59 CHR ''a'' @ ''-0001'',
                     with_method_path (bare_operation (replicate 65 CHR ''a'')) ''get'' ''/x'')]\<rparr>"
proof -
  let ?cat = "\<lparr>methods = [], openApiLookup = [], zip_table = [], cat_conv = new_converter single_long_document\<rparr>"
  have doc: "openApiSpec (cat_conv ?cat) = bare_document [(''/x'', JObj [(''get'', bare_operation (replicate 65 CHR ''a''))])]"
    by (simp add: new_converter_def single_long_document_def)
  have l: "64 < length (replicate 65 CHR ''a'')" by simp
  have n: "replicate 65 CHR ''a'' \<noteq> []" by simp
  have d: "padStart 4 (digits (Suc 0)) = ''0001''" by code_simp
  have servers: "js_get single_long_document ''servers'' = Some (JArr [JObj [(''url'', JStr ''http://localhost'')]])"
    by (simp add: single_long_document_def bare_document_def)
  have zero: "index_of (Suc 0) ''0'' = Some 0" by code_simp
  have cat: "convertToMCPTools n (new_converter single_long_document) =
     Inr \<lparr>methods = [bare_tool (replicate 59 CHR ''a'' @ ''-0001'')],
          openApiLookup = [(apiName @ ''-'' @ replicate 59 CHR ''a'' @ ''-0001'',
                     with_method_path (bare_operation (replicate 65 CHR ''a'')) ''get'' ''/x'')],
          zip_table = [(apiName @ ''-'' @ replicate 59 CHR ''a'' @ ''-0001'',
                     with_method_path (bare_operation (replicate 65 CHR ''a'')) ''get'' ''/x'',
                     bare_tool (replicate 59 CHR ''a'' @ ''-0001''))],
          cat_conv = (new_converter single_long_document)\<lparr>nameCounter := 1\<rparr>\<rparr>"
    by (simp add: convertToMCPTools_def single_long_document_def new_converter_def
        bare_document_parts or_empty_def path_step_def
        bare_operation_step [OF isOperation_get n doc, simplified new_converter_def single_long_document_def]
        ensureUniqueName_long [OF l] d)
  show ?thesis
    by (simp add: new_MCPProxy_def servers zero truthy_opt_def cat)
qed

text \<open>
  C1 does not hold of the code. For the document whose only operation has the
  identifier \<^verbatim>\<open>"a".repeat(65)\<close> the lookup is keyed by \<^verbatim>\<open>API-\<close>, 59 times the letter a and
  \<^verbatim>\<open>-0001\<close>, 68 characters; \<^verbatim>\<open>tools/list\<close> answers the first 64 characters of the key,
  and \<^verbatim>\<open>tools/call\<close> with the listed name raises \<^verbatim>\<open>Method ... not found\<close>, whatever the
  arguments and the HTTP client.
\<close>

theorem listed_name_not_callable:
  "listed_names (new_MCPProxy n single_long_document) = Inr [''API-'' @ replicate 59 CHR ''a'' @ ''-'']
   \<and> lookup_keys (new_MCPProxy n single_long_document) = Inr [''API-'' @ replicate 59 CHR ''a'' @ ''-0001'']
   \<and> call_on (new_MCPProxy n single_long_document) m parse executeOperation
        (''API-'' @ replicate 59 CHR ''a'' @ ''-'') params
      = Inl (Error (''Method API-'' @ replicate 59 CHR ''a'' @ ''- not found''))"
proof -
  have get: "toLowerCase ''get'' = ''get''" by code_simp
  have names: "listed_names (new_MCPProxy n single_long_document) = Inr [''API-'' @ replicate 59 CHR ''a'' @ ''-'']"
    by (simp add: listed_names_def single_long_document_proxy listTools_def list_method_def Let_def
        apiName_def bare_tool_def truncateToolName_def opt_get_def with_method_path_def bare_operation_def get)
  have keys: "lookup_keys (new_MCPProxy n single_long_document) = Inr [''API-'' @ replicate 59 CHR ''a'' @ ''-0001'']"
    by (simp add: lookup_keys_def single_long_document_proxy apiName_def)
  have differ: "replicate 59 CHR ''a'' @ ''-'' \<noteq> replicate 59 CHR ''a'' @ ''-0001''"
    by simp
  have call: "call_on (new_MCPProxy n single_long_document) m parse executeOperation
        (''API-'' @ replicate 59 CHR ''a'' @ ''-'') params
      = Inl (Error (''Method API-'' @ replicate 59 CHR ''a'' @ ''- not found''))"
    using differ
    by (simp add: call_on_def single_long_document_proxy callTool_def findOperation_def apiName_def)
  show ?thesis using names keys call by blast
qed

subsection \<open>Names of different operations\<close>

lemma get_path_step:
  assumes oid: "operationId \<noteq> []" and doc: "openApiSpec (cat_conv cat) = bare_document ps"
  shows "path_step n (path, JObj [(''get'', bare_operation operationId)]) cat =
     (case ensureUniqueName operationId (cat_conv cat) of (uniqueName, this2) \<Rightarrow>
        Inr (cat\<lparr>methods := methods cat @ [bare_tool uniqueName],
                openApiLookup := AList.update (apiName @ ''-'' @ uniqueName)
                   (with_method_path (bare_operation operationId) ''get'' path) (openApiLookup cat),
                zip_table := AList.update (apiName @ ''-'' @ uniqueName)
                   (with_method_path (bare_operation operationId) ''get'' path, bare_tool uniqueName)
                   (zip_table cat),
                cat_conv := this2\<rparr>))"
  by (cases "ensureUniqueName operationId (cat_conv cat)")
    (simp add: path_step_def bare_operation_step [OF isOperation_get oid doc])

lemma colliding_document_catalogue:
  "tool_names (convertToMCPTools n (new_converter colliding_document))
     = Inr [replicate 59 CHR ''a'' @ ''-0001'', replicate 59 CHR ''a'' @ ''-0001'']
   \<and> catalogue_keys (convertToMCPTools n (new_converter colliding_document))
     = Inr [''API-'' @ replicate 59 CHR ''a'' @ ''-0001'']"
proof -
  let ?ps = "[(''/short'', JObj [(''get'', bare_operation (replicate 59 CHR ''a'' @ ''-0001''))]),
              (''/long'', JObj [(''get'', bare_operation (replicate 65 CHR ''a''))])]"
  let ?c = "\<lparr>openApiSpec = bare_document ?ps, schemaCache = [], nameCounter = 0\<rparr>"
  let ?cat = "\<lparr>methods = [], openApiLookup = [], zip_table = [], cat_conv = ?c\<rparr>"
  let ?name = "replicate 59 CHR ''a'' @ ''-0001''"
  let ?cat1 = "\<lparr>methods = [bare_tool ?name],
                openApiLookup = [(apiName @ ''-'' @ ?name,
                   with_method_path (bare_operation ?name) ''get'' ''/short'')],
                zip_table = [(apiName @ ''-'' @ ?name,
                   with_method_path (bare_operation ?name) ''get'' ''/short'', bare_tool ?name)],
                cat_conv = ?c\<rparr>"
  let ?cat2 = "\<lparr>methods = [bare_tool ?name, bare_tool ?name],
                openApiLookup = [(apiName @ ''-'' @ ?name,
                   with_method_path (bare_operation (replicate 65 CHR ''a'')) ''get'' ''/long'')],
                zip_table = [(apiName @ ''-'' @ ?name,
                   with_method_path (bare_operation (replicate 65 CHR ''a'')) ''get'' ''/long'', bare_tool ?name)],
                cat_conv = ?c\<lparr>nameCounter := 1\<rparr>\<rparr>"
  have d: "padStart 4 (digits (Suc 0)) = ''0001''" by code_simp
  have s: "length ?name \<le> 64" by simp
  have l: "64 < length (replicate 65 CHR ''a'')" by simp
  have first: "path_step n (''/short'', JObj [(''get'', bare_operation ?name)]) ?cat = Inr ?cat1"
    by (subst get_path_step [where ps = ?ps]) (simp_all add: ensureUniqueName_short [OF s])
  have second: "path_step n (''/long'', JObj [(''get'', bare_operation (replicate 65 CHR ''a''))]) ?cat1 = Inr ?cat2"
    by (subst get_path_step [where ps = ?ps]) (simp_all add: ensureUniqueName_long [OF l] d)
  have "for_each (path_step n) ?ps ?cat = then_do (path_step n (''/short'', JObj [(''get'', bare_operation ?name)]) ?cat)
      (\<lambda>c1. then_do (path_step n (''/long'', JObj [(''get'', bare_operation (replicate 65 CHR ''a''))]) c1) Inr)"
    by (simp add: then_do_def cong: sum.case_cong)
  also have "\<dots> = Inr ?cat2"
    unfolding first then_do_Inr second by (rule refl)
  finally have "for_each (path_step n) ?ps ?cat = Inr ?cat2" .
  then have run: "convertToMCPTools n (new_converter colliding_document) = Inr ?cat2"
    unfolding convertToMCPTools_def new_converter_def colliding_document_def
    by (simp add: bare_document_parts or_empty_def)
  show ?thesis
    unfolding run by (simp add: tool_names_def catalogue_keys_def bare_tool_def apiName_def)
qed

lemma same_identifier_document_catalogue:
  "tool_names (convertToMCPTools n (new_converter same_identifier_document)) = Inr [''listUsers'', ''listUsers'']
   \<and> catalogue_keys (convertToMCPTools n (new_converter same_identifier_document)) = Inr [''API-listUsers'']"
proof -
  let ?ps = "[(''/users'', JObj [(''get'', bare_operation ''listUsers'')]),
              (''/members'', JObj [(''get'', bare_operation ''listUsers'')])]"
  let ?c = "\<lparr>openApiSpec = bare_document ?ps, schemaCache = [], nameCounter = 0\<rparr>"
  let ?cat = "\<lparr>methods = [], openApiLookup = [], zip_table = [], cat_conv = ?c\<rparr>"
  have s: "length ''listUsers'' \<le> 64" by simp
  let ?cat1 = "\<lparr>methods = [bare_tool ''listUsers''],
                openApiLookup = [(apiName @ ''-'' @ ''listUsers'',
                   with_method_path (bare_operation ''listUsers'') ''get'' ''/users'')],
                zip_table = [(apiName @ ''-'' @ ''listUsers'',
                   with_method_path (bare_operation ''listUsers'') ''get'' ''/users'',
                   bare_tool ''listUsers'')],
                cat_conv = ?c\<rparr>"
  let ?cat2 = "\<lparr>methods = [bare_tool ''listUsers'', bare_tool ''listUsers''],
                openApiLookup = [(apiName @ ''-'' @ ''listUsers'',
                   with_method_path (bare_operation ''listUsers'') ''get'' ''/members'')],
                zip_table = [(apiName @ ''-'' @ ''listUsers'',
                   with_method_path (bare_operation ''listUsers'') ''get'' ''/members'',
                   bare_tool ''listUsers'')],
                cat_conv = ?c\<rparr>"
  have first: "path_step n (''/users'', JObj [(''get'', bare_operation ''listUsers'')]) ?cat = Inr ?cat1"
    by (subst get_path_step [where ps = ?ps]) (simp_all add: ensureUniqueName_short [OF s])
  have second: "path_step n (''/members'', JObj [(''get'', bare_operation ''listUsers'')]) ?cat1 = Inr ?cat2"
    by (subst get_path_step [where ps = ?ps]) (simp_all add: ensureUniqueName_short [OF s])
  have "for_each (path_step n) ?ps ?cat = then_do (path_step n (''/users'', JObj [(''get'', bare_operation ''listUsers'')]) ?cat)
      (\<lambda>c1. then_do (path_step n (''/members'', JObj [(''get'', bare_operation ''listUsers'')]) c1) Inr)"
    by (simp add: then_do_def cong: sum.case_cong)
  also have "\<dots> = Inr ?cat2"
    unfolding first then_do_Inr second by (rule refl)
  finally have "for_each (path_step n) ?ps ?cat = Inr ?cat2" .
  then have run: "convertToMCPTools n (new_converter same_identifier_document) = Inr ?cat2"
    unfolding convertToMCPTools_def new_converter_def same_identifier_document_def
    by (simp add: bare_document_parts or_empty_def)
  show ?thesis
    unfolding run by (simp add: tool_names_def catalogue_keys_def bare_tool_def apiName_def)
qed

lemma suffixed_inj: "suffixed i = suffixed j \<Longrightarrow> i = j"
proof -
  assume "suffixed i = suffixed j"
  then have "padStart 4 (digits i) = padStart 4 (digits j)" by (simp add: suffixed_def)
  then have "decimal_value (padStart 4 (digits i)) = decimal_value (padStart 4 (digits j))" by simp
  then show "i = j" by (simp add: decimal_value_suffix)
qed

lemma distinct_suffixed: "distinct (map (\<lambda>j. suffixed (j + 1)) [0..<k])"
  by (auto simp add: distinct_map inj_on_def dest: suffixed_inj)

text \<open>
  C2 does not hold of the code. An identifier of 64 characters that is 59 times the
  letter a followed by \<^verbatim>\<open>-0001\<close> is kept as the name, and the identifier
  \<^verbatim>\<open>"a".repeat(65)\<close> of a later operation is truncated to that same name: the catalogue
  has two tools of one name and the lookup has one key, which holds the second
  operation. Two operations with the same identifier get the same name too. Names
  that are all truncated differ, since their suffixes are different numbers.
\<close>

theorem truncated_name_collides:
  "tool_names (convertToMCPTools n (new_converter colliding_document))
     = Inr [replicate 59 CHR ''a'' @ ''-0001'', replicate 59 CHR ''a'' @ ''-0001'']
   \<and> catalogue_keys (convertToMCPTools n (new_converter colliding_document))
     = Inr [''API-'' @ replicate 59 CHR ''a'' @ ''-0001'']
   \<and> tool_names (convertToMCPTools n (new_converter same_identifier_document)) = Inr [''listUsers'', ''listUsers'']
   \<and> catalogue_keys (convertToMCPTools n (new_converter same_identifier_document)) = Inr [''API-listUsers'']
   \<and> tool_names (convertToMCPTools n (new_converter (long_document k))) = Inr (map (\<lambda>j. suffixed (j + 1)) [0..<k])
   \<and> distinct (map (\<lambda>j. suffixed (j + 1)) [0..<k])"
  using colliding_document_catalogue [of n] same_identifier_document_catalogue [of n]
    long_document_names [of n k] distinct_suffixed [of k]
  by blast

subsection \<open>The call handler on recovered arguments\<close>

lemma longest_element: "x \<in> set xs \<Longrightarrow> longest x \<le> longest (JArr xs)"
  by (induction xs) auto

lemma longest_member: "kv \<in> set kvs \<Longrightarrow> longest (snd kv) \<le> longest (JObj kvs)"
  by (induction kvs) auto

lemma longest_array_less: "0 < m \<Longrightarrow> (longest (JArr xs) < m) = (\<forall>x \<in> set xs. longest x < m)"
  by (induction xs) auto

lemma longest_object_less: "0 < m \<Longrightarrow> (longest (JObj kvs) < m) = (\<forall>kv \<in> set kvs. longest (snd kv) < m)"
  by (induction kvs) auto

lemma longest_entry: "kv \<in> set (object_entries v) \<Longrightarrow> longest (snd kv) \<le> longest v"
proof -
  assume m: "kv \<in> set (object_entries v)"
  obtain k x where kv: "kv = (k, x)" by (cases kv)
  show ?thesis
  proof (cases v)
    case (JObj kvs)
    then show ?thesis using m longest_member by simp
  next
    case (JArr xs)
    then have "x \<in> set xs" using m kv by (auto dest: set_zip_rightD)
    then show ?thesis using JArr kv longest_element by simp
  next
    case (JStr s)
    then have "x \<in> set (map (\<lambda>c. JStr [c]) s)" using m kv by (auto dest: set_zip_rightD)
    then obtain c where "c \<in> set s" "x = JStr [c]" by auto
    then show ?thesis using JStr kv by (cases s) auto
  qed (use m in simp_all)
qed

lemma for_each_returns:
  "(\<And>x s. x \<in> set xs \<Longrightarrow> \<exists>s'. body x s = Inr s') \<Longrightarrow> \<exists>s'. for_each body xs s = Inr s'"
proof (induction xs arbitrary: s)
  case Nil
  then show ?case by simp
next
  case (Cons x xs)
  from Cons.prems [of x s] obtain s1 where "body x s = Inr s1" by auto
  moreover from Cons.IH [of s1] Cons.prems obtain s2 where "for_each body xs s1 = Inr s2" by auto
  ultimately show ?case by simp
qed

lemma map_res_returns:
  "(\<And>x. x \<in> set xs \<Longrightarrow> \<exists>y. f x = Inr y) \<Longrightarrow> \<exists>ys. map_res f xs = Inr ys"
proof (induction xs)
  case Nil
  then show ?case by simp
next
  case (Cons x xs)
  from Cons.prems [of x] obtain y where "f x = Inr y" by auto
  moreover from Cons.IH Cons.prems obtain ys where "map_res f xs = Inr ys" by auto
  ultimately show ?case by simp
qed

lemma recover_string_returns:
  assumes "\<And>parsed. parse str = Some parsed \<Longrightarrow> \<exists>r. recurse parsed = Inr r"
  shows "\<exists>r. recover_string recurse parse str = Inr r"
proof (cases "parse str")
  case None
  then show ?thesis by (simp add: recover_string_def)
next
  case (Some parsed)
  from assms [OF Some] obtain r where "recurse parsed = Inr r" by auto
  then show ?thesis using Some by (cases parsed) (simp_all add: recover_string_def)
qed

lemma deserializeParams_returns:
  assumes "shrinking parse"
  shows "longest params < n \<Longrightarrow> \<exists>r. deserializeParams n parse params = Inr r"
proof (induction n arbitrary: params)
  case 0
  then show ?case by simp
next
  case (Suc n)
  have strings: "\<exists>r. recover_string (deserializeParams n parse) parse str = Inr r" if "length str \<le> n" for str
  proof (rule recover_string_returns)
    fix parsed
    assume "parse str = Some parsed"
    then have "longest parsed < length str" using assms by (simp add: shrinking_def)
    then have "longest parsed < n" using that by simp
    then show "\<exists>r. deserializeParams n parse parsed = Inr r" by (rule Suc.IH)
  qed
  have entry: "\<exists>s'. recover_entry (deserializeParams n parse) parse kv s = Inr s'"
    if "kv \<in> set (object_entries params)" for kv s
  proof -
    have bound: "longest (snd kv) \<le> n" using longest_entry [OF that] Suc.prems by simp
    obtain k v where kv: "kv = (k, v)" by (cases kv)
    show ?thesis
    proof (cases v)
      case (JStr str)
      then have "length str \<le> n" using bound kv by simp
      from strings [OF this] obtain r where "recover_string (deserializeParams n parse) parse str = Inr r" by auto
      then show ?thesis using kv JStr by (simp add: recover_entry_def)
    next
      case (JArr items)
      have "\<exists>y. recover_item (deserializeParams n parse) parse item = Inr y" if "item \<in> set items" for item
      proof (cases item)
        case (JStr str)
        have "longest item \<le> longest (JArr items)" using that by (rule longest_element)
        then have "length str \<le> n" using bound kv JArr JStr by simp
        from strings [OF this] obtain r where "recover_string (deserializeParams n parse) parse str = Inr r" by auto
        then show ?thesis using JStr by (simp add: recover_item_def)
      qed (simp_all add: recover_item_def)
      then obtain ys where "map_res (recover_item (deserializeParams n parse) parse) items = Inr ys"
        using map_res_returns by blast
      then show ?thesis using kv JArr by (simp add: recover_entry_def)
    qed (simp_all add: kv recover_entry_def)
  qed
  obtain res where "for_each (recover_entry (deserializeParams n parse) parse) (object_entries params) [] = Inr res"
    using for_each_returns [where body = "recover_entry (deserializeParams n parse) parse", OF entry] by blast
  then show ?case by simp
qed

lemma length_skip_ws: "length (skip_ws s) \<le> length s"
  by (simp add: skip_ws_def length_dropWhile_le)

lemma skip_ws_Cons: "skip_ws s = c # cs \<Longrightarrow> length cs < length s"
  using length_skip_ws [of s] by simp

lemma parse_string_step:
  assumes "parse_string (c # cs) acc = Some r"
  shows "(c = CHR 0x22 \<and> r = (rev acc, cs))
       \<or> (\<exists>cs2 x. length cs2 < length (c # cs) \<and> parse_string cs2 (x # acc) = Some r)"
proof (cases "c = CHR 0x22")
  case True
  then show ?thesis using assms by simp
next
  case other: False
  show ?thesis
  proof (cases "c = CHR 0x5C")
    case False
    then have "parse_string cs (c # acc) = Some r" using assms other by (simp split: if_splits)
    then show ?thesis by auto
  next
    case True
    then obtain e cs' where cs: "cs = e # cs'" using assms other by (cases cs) auto
    show ?thesis
    proof (cases "e = CHR ''u''")
      case False
      then obtain u where "parse_string cs' (u # acc) = Some r"
        using assms other True cs by (auto split: option.splits)
      then show ?thesis using cs by auto
    next
      case u: True
      then obtain a b x y cs'' where cs': "cs' = a # b # x # y # cs''"
        using assms other True cs by (auto split: list.splits)
      have "\<exists>ch. parse_string cs'' (ch # acc) = Some r"
      proof (cases "hex_value a")
        case None
        then show ?thesis using assms other True cs u cs' by simp
      next
        case (Some ha)
        note a = this
        show ?thesis
        proof (cases "hex_value b")
          case None
          then show ?thesis using assms other True cs u cs' a by (simp split: nat.splits)
        next
          case (Some hb)
          note b = this
          show ?thesis
          proof (cases "hex_value x")
            case None
            then show ?thesis using assms other True cs u cs' a b by (simp split: nat.splits)
          next
            case (Some hx)
            note x = this
            show ?thesis
            proof (cases "hex_value y")
              case None
              then show ?thesis using assms other True cs u cs' a b x by (simp split: nat.splits)
            next
              case (Some hy)
              then show ?thesis using assms other True cs u cs' a b x
                by (cases ha; cases hb) auto
            qed
          qed
        qed
      qed
      then show ?thesis using cs cs' by auto
    qed
  qed
qed

lemma parse_string_length:
  "parse_string cs acc = Some (str, rest) \<Longrightarrow> length str + length rest < length acc + length cs"
proof (induction cs arbitrary: acc rule: length_induct)
  case (1 cs)
  show ?case
  proof (cases cs)
    case Nil
    then show ?thesis using "1.prems" by simp
  next
    case (Cons c cs0)
    from parse_string_step [OF "1.prems" [unfolded Cons]]
    consider "c = CHR 0x22" "(str, rest) = (rev acc, cs0)"
      | cs2 x where "length cs2 < length (c # cs0)" "parse_string cs2 (x # acc) = Some (str, rest)"
      by blast
    then show ?thesis
    proof cases
      case 1
      then show ?thesis using Cons by simp
    next
      case 2
      then have "length str + length rest < length (x # acc) + length cs2"
        using "1.IH" Cons by blast
      then show ?thesis using 2 Cons by simp
    qed
  qed
qed

lemma parse_number_length:
  "parse_number s = Some (v, rest) \<Longrightarrow> length rest < length s \<and> longest v = 0"
proof -
  assume p: "parse_number s = Some (v, rest)"
  let ?neg = "s \<noteq> [] \<and> hd s = CHR ''-''"
  let ?body = "if ?neg then tl s else s"
  from p have ds: "takeWhile is_digit ?body \<noteq> []" and r: "rest = dropWhile is_digit ?body"
    and n: "\<exists>i. v = JNum i"
    by (auto simp add: parse_number_def Let_def split: if_splits)
  have "length (takeWhile is_digit ?body) + length (dropWhile is_digit ?body) = length ?body"
    by (metis length_append takeWhile_dropWhile_id)
  then have "length rest < length ?body" using ds r by (cases "takeWhile is_digit ?body") auto
  moreover have "length ?body \<le> length s" by simp
  ultimately show ?thesis using n by auto
qed

lemma parse_value_Suc_shrinks:
  assumes E: "\<And>s acc v rest. parse_elements n s acc = Some (v, rest) \<Longrightarrow>
      length rest < length s \<and> (\<forall>m. length s \<le> m \<longrightarrow> (\<forall>x \<in> set acc. longest x < m) \<longrightarrow> longest v < m)"
    and M: "\<And>s acc v rest. parse_members n s acc = Some (v, rest) \<Longrightarrow>
      length rest < length s \<and> (\<forall>m. length s \<le> m \<longrightarrow> (\<forall>kv \<in> set acc. longest (snd kv) < m) \<longrightarrow> longest v < m)"
    and p: "parse_value (Suc n) s = Some (v, rest)"
  shows "length rest < length s \<and> longest v < length s"
proof -
  obtain c cs where sk: "skip_ws s = c # cs" using p by (cases "skip_ws s") auto
  have lt: "length cs < length s" using sk by (rule skip_ws_Cons)
  have le: "length (c # cs) \<le> length s" using length_skip_ws [of s] sk by simp
  show ?thesis
  proof (cases "c = CHR ''{''")
    case True
    then obtain d ds where sk2: "skip_ws cs = d # ds" using p sk by (cases "skip_ws cs") auto
    have lt2: "length ds < length cs" using sk2 by (rule skip_ws_Cons)
    show ?thesis
    proof (cases "d = CHR ''}''")
      case True
      then show ?thesis using p sk sk2 \<open>c = CHR ''{''\<close> lt lt2 by auto
    next
      case False
      then have "parse_members n cs [] = Some (v, rest)" using p sk sk2 \<open>c = CHR ''{''\<close> by simp
      from M [OF this] show ?thesis using lt by auto
    qed
  next
    case nobrace: False
    show ?thesis
    proof (cases "c = CHR ''[''")
      case True
      then obtain d ds where sk2: "skip_ws cs = d # ds" using p sk nobrace by (cases "skip_ws cs") auto
      have lt2: "length ds < length cs" using sk2 by (rule skip_ws_Cons)
      show ?thesis
      proof (cases "d = CHR '']''")
        case True
        then show ?thesis using p sk sk2 nobrace \<open>c = CHR ''[''\<close> lt lt2 by auto
      next
        case False
        then have "parse_elements n cs [] = Some (v, rest)" using p sk sk2 nobrace \<open>c = CHR ''[''\<close> by simp
        from E [OF this] show ?thesis using lt by auto
      qed
    next
      case nobracket: False
      show ?thesis
      proof (cases "c = CHR 0x22")
        case True
        then obtain str where ps: "parse_string cs [] = Some (str, rest)" and v: "v = JStr str"
          using p sk nobrace nobracket by auto
        from parse_string_length [OF ps] show ?thesis using v lt by simp
      next
        case noquote: False
        have simple: "parse_value (Suc n) s =
            (if startsWith (c # cs) ''true'' then Some (JBool True, drop 4 (c # cs))
             else if startsWith (c # cs) ''false'' then Some (JBool False, drop 5 (c # cs))
             else if startsWith (c # cs) ''null'' then Some (JNull, drop 4 (c # cs))
             else parse_number (c # cs))"
          using sk nobrace nobracket noquote by simp
        show ?thesis
        proof (cases "parse_number (c # cs) = Some (v, rest)")
          case True
          from parse_number_length [OF this] have "length rest < length (c # cs)" "longest v = 0"
            by auto
          then show ?thesis using le by (cases s) auto
        next
          case False
          then have "longest v = 0 \<and> (rest = drop 4 (c # cs) \<or> rest = drop 5 (c # cs))"
            using p unfolding simple by (auto split: if_splits)
          then have "longest v = 0" "length rest < length (c # cs)" by auto
          then show ?thesis using le by (cases s) auto
        qed
      qed
    qed
  qed
qed

lemma parse_elements_Suc_shrinks:
  assumes V: "\<And>s v rest. parse_value n s = Some (v, rest) \<Longrightarrow> length rest < length s \<and> longest v < length s"
    and E: "\<And>s acc v rest. parse_elements n s acc = Some (v, rest) \<Longrightarrow>
      length rest < length s \<and> (\<forall>m. length s \<le> m \<longrightarrow> (\<forall>x \<in> set acc. longest x < m) \<longrightarrow> longest v < m)"
    and p: "parse_elements (Suc n) s acc = Some (v, rest)"
  shows "length rest < length s \<and> (\<forall>m. length s \<le> m \<longrightarrow> (\<forall>x \<in> set acc. longest x < m) \<longrightarrow> longest v < m)"
proof -
  obtain v1 rest1 where pv: "parse_value n s = Some (v1, rest1)"
    using p by (cases "parse_value n s") auto
  obtain c cs where sk: "skip_ws rest1 = c # cs" using p pv by (cases "skip_ws rest1") auto
  have l1: "length rest1 < length s" "longest v1 < length s" using V [OF pv] by auto
  have l2: "length cs < length rest1" using sk by (rule skip_ws_Cons)
  show ?thesis
  proof (cases "c = CHR '',''")
    case True
    then have "parse_elements n cs (acc @ [v1]) = Some (v, rest)" using p pv sk by simp
    from E [OF this] show ?thesis using l1 l2 by auto
  next
    case False
    then have v: "v = JArr (acc @ [v1])" and r: "rest = cs" using p pv sk by (auto split: if_splits)
    have "longest v < m" if "length s \<le> m" "\<forall>x \<in> set acc. longest x < m" for m
    proof -
      have "0 < m" using that l1 by simp
      moreover have "\<forall>x \<in> set (acc @ [v1]). longest x < m" using that l1 by auto
      ultimately show ?thesis unfolding v by (simp only: longest_array_less)
    qed
    then show ?thesis using r l1 l2 by simp
  qed
qed

lemma parse_members_Suc_shrinks:
  assumes V: "\<And>s v rest. parse_value n s = Some (v, rest) \<Longrightarrow> length rest < length s \<and> longest v < length s"
    and M: "\<And>s acc v rest. parse_members n s acc = Some (v, rest) \<Longrightarrow>
      length rest < length s \<and> (\<forall>m. length s \<le> m \<longrightarrow> (\<forall>kv \<in> set acc. longest (snd kv) < m) \<longrightarrow> longest v < m)"
    and p: "parse_members (Suc n) s acc = Some (v, rest)"
  shows "length rest < length s \<and> (\<forall>m. length s \<le> m \<longrightarrow> (\<forall>kv \<in> set acc. longest (snd kv) < m) \<longrightarrow> longest v < m)"
proof -
  obtain q cs where sk: "skip_ws s = q # cs" using p by (cases "skip_ws s") auto
  have q: "q = CHR 0x22" using p sk by (auto split: if_splits)
  obtain key rest0 where ps: "parse_string cs [] = Some (key, rest0)"
    using p sk q by (cases "parse_string cs []") auto
  obtain c cs' where sk2: "skip_ws rest0 = c # cs'" using p sk q ps by (cases "skip_ws rest0") auto
  have c: "c = CHR '':''" using p sk q ps sk2 by (auto split: if_splits)
  obtain v1 rest' where pv: "parse_value n cs' = Some (v1, rest')"
    using p sk q ps sk2 c by (cases "parse_value n cs'") auto
  obtain d ds where sk3: "skip_ws rest' = d # ds" using p sk q ps sk2 c pv by (cases "skip_ws rest'") auto
  have l0: "length cs < length s" using sk by (rule skip_ws_Cons)
  have l1: "length rest0 < length cs" using parse_string_length [OF ps] by simp
  have l2: "length cs' < length rest0" using sk2 by (rule skip_ws_Cons)
  have l3: "length rest' < length cs'" "longest v1 < length cs'" using V [OF pv] by auto
  have l4: "length ds < length rest'" using sk3 by (rule skip_ws_Cons)
  have upd: "\<forall>kv \<in> set (AList.update key v1 acc). longest (snd kv) < m"
    if "length s \<le> m" "\<forall>kv \<in> set acc. longest (snd kv) < m" for m
  proof
    fix kv
    assume "kv \<in> set (AList.update key v1 acc)"
    then have "kv = (key, v1) \<or> kv \<in> set acc" using set_update_subset [of key v1 acc] by auto
    then show "longest (snd kv) < m" using that l0 l1 l2 l3 by auto
  qed
  show ?thesis
  proof (cases "d = CHR '',''")
    case True
    then have "parse_members n ds (AList.update key v1 acc) = Some (v, rest)"
      using p sk q ps sk2 c pv sk3 by simp
    from M [OF this] show ?thesis using upd l0 l1 l2 l3 l4 by auto
  next
    case False
    then have v: "v = JObj (AList.update key v1 acc)" and r: "rest = ds"
      using p sk q ps sk2 c pv sk3 by (auto split: if_splits)
    have "longest v < m" if "length s \<le> m" "\<forall>kv \<in> set acc. longest (snd kv) < m" for m
    proof -
      have "0 < m" using that l0 by simp
      then show ?thesis unfolding v using upd [OF that] by (simp only: longest_object_less)
    qed
    then show ?thesis using r l0 l1 l2 l3 l4 by simp
  qed
qed

lemma parse_shrinks:
  "(\<forall>s v rest. parse_value n s = Some (v, rest) \<longrightarrow> length rest < length s \<and> longest v < length s)
   \<and> (\<forall>s acc v rest. parse_elements n s acc = Some (v, rest) \<longrightarrow>
        length rest < length s \<and> (\<forall>m. length s \<le> m \<longrightarrow> (\<forall>x \<in> set acc. longest x < m) \<longrightarrow> longest v < m))
   \<and> (\<forall>s acc v rest. parse_members n s acc = Some (v, rest) \<longrightarrow>
        length rest < length s \<and> (\<forall>m. length s \<le> m \<longrightarrow> (\<forall>kv \<in> set acc. longest (snd kv) < m) \<longrightarrow> longest v < m))"
proof (induction n)
  case 0
  show ?case by simp
next
  case (Suc n)
  then have V: "\<And>s v rest. parse_value n s = Some (v, rest) \<Longrightarrow> length rest < length s \<and> longest v < length s"
    and E: "\<And>s acc v rest. parse_elements n s acc = Some (v, rest) \<Longrightarrow>
      length rest < length s \<and> (\<forall>m. length s \<le> m \<longrightarrow> (\<forall>x \<in> set acc. longest x < m) \<longrightarrow> longest v < m)"
    and M: "\<And>s acc v rest. parse_members n s acc = Some (v, rest) \<Longrightarrow>
      length rest < length s \<and> (\<forall>m. length s \<le> m \<longrightarrow> (\<forall>kv \<in> set acc. longest (snd kv) < m) \<longrightarrow> longest v < m)"
    by blast+
  show ?case
    using parse_value_Suc_shrinks [OF E M] parse_elements_Suc_shrinks [OF V E] parse_members_Suc_shrinks [OF V M]
    by blast
qed

lemma shrinking_JSON_parse: "shrinking JSON_parse"
  unfolding shrinking_def
proof (intro allI impI)
  fix s v
  assume "JSON_parse s = Some v"
  then obtain rest where "parse_value (2 * length s + 2) s = Some (v, rest)"
    by (auto simp add: JSON_parse_def split: option.splits if_splits)
  then show "longest v < length s" using parse_shrinks [of "2 * length s + 2"] by blast
qed

lemma recovery_returns:
  assumes "shrinking parse" and "\<And>p. params = Some p \<Longrightarrow> longest p < n"
  shows "\<exists>args. (case params of
                  Some p \<Rightarrow> if truthy p then deserializeParams n parse p else Inr (JObj [])
                | None \<Rightarrow> Inr (JObj [])) = Inr args"
proof (cases params)
  case None
  then show ?thesis by simp
next
  case (Some p)
  then have "longest p < n" by (rule assms(2))
  from deserializeParams_returns [OF assms(1) this] show ?thesis using Some by auto
qed

lemma error_object_other:
  "\<not> is_object p \<Longrightarrow> error_object p = JObj [(''status'', JStr ''error''), (''data'', p)]"
proof -
  assume "\<not> is_object p"
  moreover have "array_index ''status'' = None" "array_index ''data'' = None" by code_simp+
  ultimately show ?thesis
    by (simp add: error_object_def spread_def own_property_order_def)
qed

text \<open>
  C7, as amended. A call of a known tool, with a shrinking parser and fuel above the
  longest text of the arguments: the arguments are recovered, and a request that
  fails with an \<open>HttpClientError\<close> is answered, not raised. The answer is one text item
  holding the serialisation of the error object. For a payload that is an object or
  an array the error object is \<^verbatim>\<open>{status: "error"}\<close> with the entries of the payload
  written over it, its keys in the order of own properties: the array indices first,
  in ascending order, then \<^verbatim>\<open>status\<close> and the other keys. For a payload that is a string,
  a number or a boolean it is \<^verbatim>\<open>{status: "error", data: payload}\<close>. The payload is
  \<^verbatim>\<open>error.data.response.data\<close> when that is neither \<^verbatim>\<open>undefined\<close> nor \<^verbatim>\<open>null\<close>, else
  \<^verbatim>\<open>error.data\<close> under the same condition, else the empty object. Every other failure
  of the request is raised unchanged.
\<close>

theorem callTool_structured_error:
  assumes known: "findOperation proxy name = Some operation"
    and parser: "shrinking parse"
    and fuel: "\<And>p. params = Some p \<Longrightarrow> longest p < n"
  shows "(\<exists>args. (case params of
                  Some p \<Rightarrow> if truthy p then deserializeParams n parse p else Inr (JObj [])
                | None \<Rightarrow> Inr (JObj [])) = Inr args
            \<and> (executeOperation operation args = Inl (HttpClientError d) \<longrightarrow>
                 callTool n parse executeOperation proxy name params =
                   Inr (text_content (Some (JSON_stringify (error_object (error_payload d))))))
            \<and> (executeOperation operation args = Inl e \<longrightarrow> (\<forall>x. e \<noteq> HttpClientError x) \<longrightarrow>
                 callTool n parse executeOperation proxy name params = Inl e))
       \<and> (is_object payload \<longrightarrow>
            error_object payload
              = JObj (own_property_order (spread (object_entries payload) [(''status'', JStr ''error'')])))
       \<and> (\<not> is_object payload \<longrightarrow>
            error_object payload = JObj [(''status'', JStr ''error''), (''data'', payload)])
       \<and> (opt_get (opt_get d ''response'') ''data'' = Some v \<longrightarrow> v \<noteq> JNull \<longrightarrow> error_payload d = v)
       \<and> (opt_get (opt_get d ''response'') ''data'' \<in> {None, Some JNull} \<longrightarrow> d = Some v \<longrightarrow> v \<noteq> JNull \<longrightarrow>
            error_payload d = v)
       \<and> (opt_get (opt_get d ''response'') ''data'' \<in> {None, Some JNull} \<longrightarrow> d \<in> {None, Some JNull} \<longrightarrow>
            error_payload d = JObj [])"
proof -
  from recovery_returns [OF parser fuel] obtain args where
    args: "(case params of
                  Some p \<Rightarrow> if truthy p then deserializeParams n parse p else Inr (JObj [])
                | None \<Rightarrow> Inr (JObj [])) = Inr args"
    by blast
  have answered: "callTool n parse executeOperation proxy name params =
      Inr (text_content (Some (JSON_stringify (error_object (error_payload d)))))"
    if "executeOperation operation args = Inl (HttpClientError d)"
    using that by (simp add: callTool_known [OF known args])
  have raised: "callTool n parse executeOperation proxy name params = Inl e"
    if "executeOperation operation args = Inl e" "\<forall>x. e \<noteq> HttpClientError x"
    using that by (cases e) (simp_all add: callTool_known [OF known args])
  have first: "\<exists>args. (case params of
                  Some p \<Rightarrow> if truthy p then deserializeParams n parse p else Inr (JObj [])
                | None \<Rightarrow> Inr (JObj [])) = Inr args
            \<and> (executeOperation operation args = Inl (HttpClientError d) \<longrightarrow>
                 callTool n parse executeOperation proxy name params =
                   Inr (text_content (Some (JSON_stringify (error_object (error_payload d))))))
            \<and> (executeOperation operation args = Inl e \<longrightarrow> (\<forall>x. e \<noteq> HttpClientError x) \<longrightarrow>
                 callTool n parse executeOperation proxy name params = Inl e)"
    using args answered raised by blast
  have spreads: "is_object payload \<longrightarrow>
            error_object payload
              = JObj (own_property_order (spread (object_entries payload) [(''status'', JStr ''error'')]))"
    by (simp add: error_object_def)
  have nested: "\<not> is_object payload \<longrightarrow>
            error_object payload = JObj [(''status'', JStr ''error''), (''data'', payload)]"
    by (simp add: error_object_other)
  have p1: "opt_get (opt_get d ''response'') ''data'' = Some v \<longrightarrow> v \<noteq> JNull \<longrightarrow> error_payload d = v"
    using error_payload_nested by blast
  have p2: "opt_get (opt_get d ''response'') ''data'' \<in> {None, Some JNull} \<longrightarrow> d = Some v \<longrightarrow> v \<noteq> JNull \<longrightarrow>
            error_payload d = v"
    using error_payload_data by blast
  have p3: "opt_get (opt_get d ''response'') ''data'' \<in> {None, Some JNull} \<longrightarrow> d \<in> {None, Some JNull} \<longrightarrow>
            error_payload d = JObj []"
    using error_payload_empty by blast
  from first spreads nested p1 p2 p3 show ?thesis by (intro conjI)
qed

text \<open>
  A call whose argument is the text of an object and whose request fails with an array
  for a payload.
\<close>

theorem callTool_structured_error_witness:
  "callTool 8 JSON_parse (failing_client array_error_data) one_tool_proxy ''API-getTest'' text_arguments
    = Inr (text_content (Some ''{\"0\":\"a\",\"1\":\"b\",\"status\":\"error\"}''))"
proof -
  let ?op = "JObj [(''operationId'', JStr ''getTest''), (''method'', JStr ''get''), (''path'', JStr ''/test'')]"
  have known: "findOperation one_tool_proxy ''API-getTest'' = Some ?op"
    by code_simp
  have fuel: "longest p < 8" if "text_arguments = Some p" for p
    using that by (auto simp add: text_arguments_def)
  have fails: "failing_client array_error_data ?op args = Inl (HttpClientError array_error_data)" for args
    by (simp add: failing_client_def)
  have rendered: "JSON_stringify (error_object (error_payload array_error_data))
      = ''{\"0\":\"a\",\"1\":\"b\",\"status\":\"error\"}''"
    by code_simp
  from callTool_structured_error [OF known shrinking_JSON_parse fuel,
      where executeOperation = "failing_client array_error_data" and d = array_error_data]
    fails rendered show ?thesis by auto
qed

subsection \<open>The string fallback of parameters and body properties\<close>

lemma withStringFallback_returns: "\<exists>w. withStringFallback (JObj kvs) = Inr w"
proof (cases "is_complex kvs")
  case True
  then show ?thesis by (simp add: withStringFallback_complex)
next
  case False
  show ?thesis
  proof (cases "map_of kvs ''type'' = Some (JStr ''array'') \<and> (\<exists>items. map_of kvs ''items'' = Some items \<and> truthy items)")
    case True
    then show ?thesis using False withStringFallback_array by blast
  next
    case other: False
    then show ?thesis using False withStringFallback_other by blast
  qed
qed

lemma parameter_step_property:
  assumes res: "resolveParameter (self b) param = Inr (Some po)"
    and sch: "js_get po ''schema'' = Some pschema" and tr: "truthy pschema"
    and conv: "convert_fresh n pschema (self b) = Inr (JObj kvs, this')"
    and key: "key_string (js_get po ''name'') \<noteq> ''__proto__''"
  shows "\<exists>b' w. parameter_step n param b = Inr b'
           \<and> withStringFallback (JObj (described po kvs)) = Inr w
           \<and> map_of (properties b') (key_string (js_get po ''name'')) = Some w"
proof -
  obtain w where w: "withStringFallback (JObj (described po kvs)) = Inr w"
    using withStringFallback_returns by blast
  have d: "(case js_get po ''description'' of
              Some d \<Rightarrow> if truthy d then json_set ''description'' d (JObj kvs) else Inr (JObj kvs)
            | None \<Rightarrow> Inr (JObj kvs)) = Inr (JObj (described po kvs))"
    by (simp add: described_def json_set_def split: option.splits)
  have "parameter_step n param b =
      Inr (b\<lparr>properties := obj_set (key_string (js_get po ''name'')) w (properties b),
             required := (if truthy_opt (js_get po ''required'')
                          then required b @ [value_or_undefined (js_get po ''name'')]
                          else required b),
             self := this'\<rparr>)"
    by (simp add: parameter_step_def res sch tr conv d w)
  then show ?thesis using w key by (simp add: map_of_obj_set_same)
qed

lemma body_step_other:
  assumes res: "resolveRequestBody (self b) requestBody = Inr bodyObj"
    and content: "opt_get bodyObj ''content'' = Some content" "truthy content"
    and form: "\<not> truthy_opt (opt_get (js_get content ''multipart/form-data'') ''schema'')"
    and body: "opt_get (js_get content ''application/json'') ''schema'' = Some bschema" "truthy bschema"
    and conv: "convert_fresh n bschema (self b) = Inr (JObj kvs, this')"
    and other: "\<not> object_with_properties (JObj kvs)"
  shows "\<exists>w. withStringFallback (JObj kvs) = Inr w
           \<and> request_body_step n requestBody b
             = Inr (b\<lparr>properties := obj_set ''body'' w (properties b),
                      required := required b @ [JStr ''body''],
                      self := this'\<rparr>)"
proof -
  obtain w where w: "withStringFallback (JObj kvs) = Inr w"
    using withStringFallback_returns by blast
  have "request_body_step n requestBody b
             = Inr (b\<lparr>properties := obj_set ''body'' w (properties b),
                      required := required b @ [JStr ''body''],
                      self := this'\<rparr>)"
    using assms w by (simp add: request_body_step_def truthy_opt_def value_or_undefined_def)
  then show ?thesis using w by blast
qed

lemma body_step_object:
  assumes res: "resolveRequestBody (self b) requestBody = Inr bodyObj"
    and content: "opt_get bodyObj ''content'' = Some content" "truthy content"
    and form: "\<not> truthy_opt (opt_get (js_get content ''multipart/form-data'') ''schema'')"
    and body: "opt_get (js_get content ''application/json'') ''schema'' = Some bschema" "truthy bschema"
    and conv: "convert_fresh n bschema (self b) = Inr (bodySchema, this')"
    and obj: "object_with_properties bodySchema"
  shows "request_body_step n requestBody b = merge_properties bodySchema (b\<lparr>self := this'\<rparr>)"
  using assms by (simp add: request_body_step_def truthy_opt_def value_or_undefined_def)

lemma body_step_form:
  assumes res: "resolveRequestBody (self b) requestBody = Inr bodyObj"
    and content: "opt_get bodyObj ''content'' = Some content" "truthy content"
    and form: "opt_get (js_get content ''multipart/form-data'') ''schema'' = Some fschema" "truthy fschema"
    and conv: "convert_fresh n fschema (self b) = Inr (formSchema, this')"
    and obj: "object_with_properties formSchema"
  shows "request_body_step n requestBody b = merge_properties formSchema (b\<lparr>self := this'\<rparr>)"
  using assms by (simp add: request_body_step_def truthy_opt_def value_or_undefined_def)

lemma wrap_all:
  assumes "\<forall>kv \<in> set entries. \<exists>kvs. snd kv = JObj kvs"
  shows "\<exists>props'. for_each wrap_property entries props = Inr props'
          \<and> (\<forall>name. name \<notin> fst ` set entries \<longrightarrow> map_of props' name = map_of props name)
          \<and> (distinct (map fst entries) \<longrightarrow>
               (\<forall>name kvs. (name, JObj kvs) \<in> set entries \<longrightarrow> name \<noteq> ''__proto__'' \<longrightarrow>
                  (\<exists>w. withStringFallback (JObj kvs) = Inr w \<and> map_of props' name = Some w)))"
  using assms
proof (induction entries arbitrary: props)
  case Nil
  then show ?case by simp
next
  case (Cons e es)
  obtain k v where e: "e = (k, v)" by (cases e)
  obtain kvs0 where v: "v = JObj kvs0" using Cons.prems e by auto
  obtain w0 where w0: "withStringFallback (JObj kvs0) = Inr w0" using withStringFallback_returns by blast
  let ?p1 = "obj_set k w0 props"
  have step: "wrap_property e props = Inr ?p1" by (simp add: wrap_property_def e v w0)
  from Cons.IH [of ?p1] Cons.prems obtain props' where
    r: "for_each wrap_property es ?p1 = Inr props'"
    and keep: "\<forall>name. name \<notin> fst ` set es \<longrightarrow> map_of props' name = map_of ?p1 name"
    and new: "distinct (map fst es) \<longrightarrow>
               (\<forall>name kvs. (name, JObj kvs) \<in> set es \<longrightarrow> name \<noteq> ''__proto__'' \<longrightarrow>
                  (\<exists>w. withStringFallback (JObj kvs) = Inr w \<and> map_of props' name = Some w))"
    by auto
  have run: "for_each wrap_property (e # es) props = Inr props'" using step r by simp
  have keep': "\<forall>name. name \<notin> fst ` set (e # es) \<longrightarrow> map_of props' name = map_of props name"
    using keep e by (auto simp add: map_of_obj_set_other)
  have new': "\<exists>w. withStringFallback (JObj kvs) = Inr w \<and> map_of props' name = Some w"
    if dist: "distinct (map fst (e # es))" and mem: "(name, JObj kvs) \<in> set (e # es)"
      and np: "name \<noteq> ''__proto__''" for name kvs
  proof (cases "(name, JObj kvs) \<in> set es")
    case True
    then show ?thesis using new dist np by auto
  next
    case False
    then have eq: "name = k" "kvs = kvs0" using mem e v by auto
    have "k \<notin> fst ` set es" using dist e by auto
    then have "map_of props' k = map_of ?p1 k" using keep by blast
    then show ?thesis using eq w0 np by (simp add: map_of_obj_set_same)
  qed
  show ?case using run keep' new' by blast
qed

lemma merge_properties_property:
  assumes objs: "\<forall>kv \<in> set (object_entries (value_or_undefined (js_get bodySchema ''properties''))).
                   \<exists>kvs. snd kv = JObj kvs"
    and dist: "distinct (map fst (object_entries (value_or_undefined (js_get bodySchema ''properties''))))"
    and req: "js_get bodySchema ''required'' = None \<or> (\<exists>rs. js_get bodySchema ''required'' = Some (JArr rs))"
    and mem: "(name, JObj kvs) \<in> set (object_entries (value_or_undefined (js_get bodySchema ''properties'')))"
    and np: "name \<noteq> ''__proto__''"
  shows "\<exists>b' w. merge_properties bodySchema b = Inr b'
           \<and> withStringFallback (JObj kvs) = Inr w
           \<and> map_of (properties b') name = Some w"
proof -
  let ?es = "object_entries (value_or_undefined (js_get bodySchema ''properties''))"
  from wrap_all [OF objs, of "properties b"] dist mem np obtain props' w where
    r: "for_each wrap_property ?es (properties b) = Inr props'"
    and w: "withStringFallback (JObj kvs) = Inr w" "map_of props' name = Some w"
    by blast
  have m: "merge_properties bodySchema b =
      (case js_get bodySchema ''required'' of
            Some r \<Rightarrow>
              if truthy r then then_do (js_iterate r) (\<lambda>rs. Inr (b\<lparr>properties := props', required := required b @ rs\<rparr>))
              else Inr (b\<lparr>properties := props'\<rparr>)
          | None \<Rightarrow> Inr (b\<lparr>properties := props'\<rparr>))"
    using r by (simp add: merge_properties_def wrap_property_def)
  from req have "\<exists>b'. merge_properties bodySchema b = Inr b' \<and> properties b' = props'"
    unfolding m by (auto simp add: js_iterate_def)
  then show ?thesis using w by auto
qed

lemma parameter_scenario_properties:
  "input_property ''filter''
        (convertOperationToMCPMethod 3 parameter_scenario_operation ''post'' ''/things''
           (new_converter parameter_scenario_document))
      = Some (JObj [(''anyOf'',
                JArr [JObj [(''type'', JStr ''object''),
                            (''properties'', JObj [(''x'', JObj [(''type'', JStr ''string'')])]),
                            (''additionalProperties'', JBool True),
                            (''description'', JStr ''A filter'')],
                      JObj [(''type'', JStr ''string'')]])])
   \<and> input_property ''tags''
        (convertOperationToMCPMethod 3 parameter_scenario_operation ''post'' ''/things''
           (new_converter parameter_scenario_document))
      = Some (JObj [(''type'', JStr ''array''), (''items'', items_fallback (JObj [(''type'', JStr ''string'')]))])
   \<and> input_property ''limit''
        (convertOperationToMCPMethod 3 parameter_scenario_operation ''post'' ''/things''
           (new_converter parameter_scenario_document))
      = Some (JObj [(''type'', JStr ''integer'')])
   \<and> input_property ''body''
        (convertOperationToMCPMethod 3 parameter_scenario_operation ''post'' ''/things''
           (new_converter parameter_scenario_document))
      = Some (JObj [(''type'', JStr ''array''), (''items'', items_fallback (JObj [(''type'', JStr ''string'')]))])"
  by code_simp

text \<open>
  C8. The string fallback of a schema object: a complex schema becomes
  \<^verbatim>\<open>{anyOf: [schema, {type: "string"}]}\<close>; an array schema with items keeps its entries and
  their order, and its items become \<^verbatim>\<open>{anyOf: [items, {type: "string"}, {type: "object",
  additionalProperties: true}]}\<close>; every other schema is returned as it is. Every
  parameter and every body property gets it. The step of a parameter that resolves and
  has a schema leaves, under the name of the parameter, the fallback of the
  translation of the schema with the description of the parameter. The step of a JSON
  body whose translation is not an object with properties leaves the fallback of the
  translation under \<^verbatim>\<open>body\<close>; for an object with properties, of a JSON body or of a
  multipart form, it merges the properties, and the merge leaves under each name the
  fallback of the property. The object property \<^verbatim>\<open>p\<close> of a JSON body becomes the
  \<^verbatim>\<open>anyOf\<close> of its translation and the string schema, and the parameters and the array
  body of a second operation come out wrapped in the same way.
\<close>

theorem withStringFallback_shapes:
  "(is_complex kvs \<longrightarrow>
      withStringFallback (JObj kvs) = Inr (JObj [(''anyOf'', JArr [JObj kvs, JObj [(''type'', JStr ''string'')]])]))
   \<and> (\<not> is_complex kvs \<longrightarrow> map_of kvs ''type'' = Some (JStr ''array'') \<longrightarrow>
        map_of kvs ''items'' = Some items \<longrightarrow> truthy items \<longrightarrow>
          withStringFallback (JObj kvs) = Inr (JObj (AList.update ''items'' (items_fallback items) kvs))
          \<and> map fst (AList.update ''items'' (items_fallback items) kvs) = map fst kvs
          \<and> (\<forall>k. k \<noteq> ''items'' \<longrightarrow>
                map_of (AList.update ''items'' (items_fallback items) kvs) k = map_of kvs k))
   \<and> (\<not> is_complex kvs \<longrightarrow>
        \<not> (map_of kvs ''type'' = Some (JStr ''array'') \<and>
           (\<exists>items. map_of kvs ''items'' = Some items \<and> truthy items)) \<longrightarrow>
          withStringFallback (JObj kvs) = Inr (JObj kvs))
   \<and> input_property ''p''
        (convertOperationToMCPMethod 3 body_scenario_operation ''post'' ''/things''
           (new_converter body_scenario_document))
      = Some (JObj [(''anyOf'',
                JArr [JObj [(''type'', JStr ''object''),
                            (''properties'', JObj [(''x'', JObj [(''type'', JStr ''string'')])]),
                            (''additionalProperties'', JBool True)],
                      JObj [(''type'', JStr ''string'')]])])
   \<and> input_property ''filter''
        (convertOperationToMCPMethod 3 parameter_scenario_operation ''post'' ''/things''
           (new_converter parameter_scenario_document))
      = Some (JObj [(''anyOf'',
                JArr [JObj [(''type'', JStr ''object''),
                            (''properties'', JObj [(''x'', JObj [(''type'', JStr ''string'')])]),
                            (''additionalProperties'', JBool True),
                            (''description'', JStr ''A filter'')],
                      JObj [(''type'', JStr ''string'')]])])
   \<and> input_property ''tags''
        (convertOperationToMCPMethod 3 parameter_scenario_operation ''post'' ''/things''
           (new_converter parameter_scenario_document))
      = Some (JObj [(''type'', JStr ''array''), (''items'', items_fallback (JObj [(''type'', JStr ''string'')]))])
   \<and> input_property ''limit''
        (convertOperationToMCPMethod 3 parameter_scenario_operation ''post'' ''/things''
           (new_converter parameter_scenario_document))
      = Some (JObj [(''type'', JStr ''integer'')])
   \<and> input_property ''body''
        (convertOperationToMCPMethod 3 parameter_scenario_operation ''post'' ''/things''
           (new_converter parameter_scenario_document))
      = Some (JObj [(''type'', JStr ''array''), (''items'', items_fallback (JObj [(''type'', JStr ''string'')]))])
   \<and> (resolveParameter (self b) param = Inr (Some paramObj) \<longrightarrow>
        js_get paramObj ''schema'' = Some pschema \<longrightarrow> truthy pschema \<longrightarrow>
        convert_fresh n pschema (self b) = Inr (JObj pkvs, this') \<longrightarrow>
        key_string (js_get paramObj ''name'') \<noteq> ''__proto__'' \<longrightarrow>
        withStringFallback (JObj (described paramObj pkvs)) = Inr w \<longrightarrow>
          built_property (key_string (js_get paramObj ''name'')) (parameter_step n param b) = Some w)
   \<and> (resolveRequestBody (self b) requestBody = Inr bodyObj \<longrightarrow>
        opt_get bodyObj ''content'' = Some content \<longrightarrow> truthy content \<longrightarrow>
        \<not> truthy_opt (opt_get (js_get content ''multipart/form-data'') ''schema'') \<longrightarrow>
        opt_get (js_get content ''application/json'') ''schema'' = Some bschema \<longrightarrow> truthy bschema \<longrightarrow>
        convert_fresh n bschema (self b) = Inr (JObj bkvs, this') \<longrightarrow>
          (\<not> object_with_properties (JObj bkvs) \<longrightarrow> withStringFallback (JObj bkvs) = Inr w \<longrightarrow>
             request_body_step n requestBody b
               = Inr (b\<lparr>properties := obj_set ''body'' w (properties b),
                        required := required b @ [JStr ''body''],
                        self := this'\<rparr>))
          \<and> (object_with_properties (JObj bkvs) \<longrightarrow>
             request_body_step n requestBody b = merge_properties (JObj bkvs) (b\<lparr>self := this'\<rparr>)))
   \<and> (resolveRequestBody (self b) requestBody = Inr bodyObj \<longrightarrow>
        opt_get bodyObj ''content'' = Some content \<longrightarrow> truthy content \<longrightarrow>
        opt_get (js_get content ''multipart/form-data'') ''schema'' = Some fschema \<longrightarrow> truthy fschema \<longrightarrow>
        convert_fresh n fschema (self b) = Inr (JObj bkvs, this') \<longrightarrow> object_with_properties (JObj bkvs) \<longrightarrow>
          request_body_step n requestBody b = merge_properties (JObj bkvs) (b\<lparr>self := this'\<rparr>))
   \<and> ((\<forall>kv \<in> set (object_entries (value_or_undefined (js_get bodySchema ''properties''))).
           \<exists>skvs. snd kv = JObj skvs) \<longrightarrow>
        distinct (map fst (object_entries (value_or_undefined (js_get bodySchema ''properties'')))) \<longrightarrow>
        (js_get bodySchema ''required'' = None \<or> (\<exists>rs. js_get bodySchema ''required'' = Some (JArr rs))) \<longrightarrow>
        (name, JObj qkvs) \<in> set (object_entries (value_or_undefined (js_get bodySchema ''properties''))) \<longrightarrow>
        name \<noteq> ''__proto__'' \<longrightarrow> withStringFallback (JObj qkvs) = Inr w \<longrightarrow>
          built_property name (merge_properties bodySchema b) = Some w)"
proof -
  have shapes: "(is_complex kvs \<longrightarrow>
      withStringFallback (JObj kvs) = Inr (JObj [(''anyOf'', JArr [JObj kvs, JObj [(''type'', JStr ''string'')]])]))
   \<and> (\<not> is_complex kvs \<longrightarrow> map_of kvs ''type'' = Some (JStr ''array'') \<longrightarrow>
        map_of kvs ''items'' = Some items \<longrightarrow> truthy items \<longrightarrow>
          withStringFallback (JObj kvs) = Inr (JObj (AList.update ''items'' (items_fallback items) kvs))
          \<and> map fst (AList.update ''items'' (items_fallback items) kvs) = map fst kvs
          \<and> (\<forall>k. k \<noteq> ''items'' \<longrightarrow>
                map_of (AList.update ''items'' (items_fallback items) kvs) k = map_of kvs k))
   \<and> (\<not> is_complex kvs \<longrightarrow>
        \<not> (map_of kvs ''type'' = Some (JStr ''array'') \<and>
           (\<exists>items. map_of kvs ''items'' = Some items \<and> truthy items)) \<longrightarrow>
          withStringFallback (JObj kvs) = Inr (JObj kvs))"
  proof (intro conjI impI allI)
    assume "\<not> is_complex kvs" "map_of kvs ''type'' = Some (JStr ''array'')"
      "map_of kvs ''items'' = Some items" "truthy items"
    then show "withStringFallback (JObj kvs) = Inr (JObj (AList.update ''items'' (items_fallback items) kvs))"
      by (rule withStringFallback_array)
  next
    assume "map_of kvs ''items'' = Some items"
    then have "''items'' \<in> fst ` set kvs"
      by (metis domI dom_map_of_conv_image_fst)
    then show "map fst (AList.update ''items'' (items_fallback items) kvs) = map fst kvs"
      by (simp add: update_keys)
  next
    fix k :: string
    assume "k \<noteq> ''items''"
    then show "map_of (AList.update ''items'' (items_fallback items) kvs) k = map_of kvs k"
      by (simp add: update_conv')
  qed (simp_all add: withStringFallback_complex withStringFallback_other)
  have parameter: "built_property (key_string (js_get paramObj ''name'')) (parameter_step n param b) = Some w"
    if "resolveParameter (self b) param = Inr (Some paramObj)"
      "js_get paramObj ''schema'' = Some pschema" "truthy pschema"
      "convert_fresh n pschema (self b) = Inr (JObj pkvs, this')"
      "key_string (js_get paramObj ''name'') \<noteq> ''__proto__''"
      "withStringFallback (JObj (described paramObj pkvs)) = Inr w"
    using parameter_step_property [OF that(1-5)] that(6) by (auto simp add: built_property_def)
  have other: "request_body_step n requestBody b
               = Inr (b\<lparr>properties := obj_set ''body'' w (properties b),
                        required := required b @ [JStr ''body''],
                        self := this'\<rparr>)"
    if "resolveRequestBody (self b) requestBody = Inr bodyObj"
      "opt_get bodyObj ''content'' = Some content" "truthy content"
      "\<not> truthy_opt (opt_get (js_get content ''multipart/form-data'') ''schema'')"
      "opt_get (js_get content ''application/json'') ''schema'' = Some bschema" "truthy bschema"
      "convert_fresh n bschema (self b) = Inr (JObj bkvs, this')"
      "\<not> object_with_properties (JObj bkvs)" "withStringFallback (JObj bkvs) = Inr w"
    using body_step_other [OF that(1-8)] that(9) by auto
  have object: "request_body_step n requestBody b = merge_properties (JObj bkvs) (b\<lparr>self := this'\<rparr>)"
    if "resolveRequestBody (self b) requestBody = Inr bodyObj"
      "opt_get bodyObj ''content'' = Some content" "truthy content"
      "\<not> truthy_opt (opt_get (js_get content ''multipart/form-data'') ''schema'')"
      "opt_get (js_get content ''application/json'') ''schema'' = Some bschema" "truthy bschema"
      "convert_fresh n bschema (self b) = Inr (JObj bkvs, this')"
      "object_with_properties (JObj bkvs)"
    using that by (rule body_step_object)
  have form: "request_body_step n requestBody b = merge_properties (JObj bkvs) (b\<lparr>self := this'\<rparr>)"
    if "resolveRequestBody (self b) requestBody = Inr bodyObj"
      "opt_get bodyObj ''content'' = Some content" "truthy content"
      "opt_get (js_get content ''multipart/form-data'') ''schema'' = Some fschema" "truthy fschema"
      "convert_fresh n fschema (self b) = Inr (JObj bkvs, this')" "object_with_properties (JObj bkvs)"
    using that by (rule body_step_form)
  have merged: "built_property name (merge_properties bodySchema b) = Some w"
    if "\<forall>kv \<in> set (object_entries (value_or_undefined (js_get bodySchema ''properties''))).
           \<exists>skvs. snd kv = JObj skvs"
      "distinct (map fst (object_entries (value_or_undefined (js_get bodySchema ''properties''))))"
      "js_get bodySchema ''required'' = None \<or> (\<exists>rs. js_get bodySchema ''required'' = Some (JArr rs))"
      "(name, JObj qkvs) \<in> set (object_entries (value_or_undefined (js_get bodySchema ''properties'')))"
      "name \<noteq> ''__proto__''" "withStringFallback (JObj qkvs) = Inr w"
    using merge_properties_property [OF that(1-5), of b] that(6) by (auto simp add: built_property_def)
  show ?thesis
    apply (intro conjI)
    subgoal using shapes by blast
    subgoal using shapes by blast
    subgoal using shapes by blast
    subgoal by (rule body_scenario_property)
    subgoal by (rule parameter_scenario_properties [THEN conjunct1])
    subgoal by (rule parameter_scenario_properties [THEN conjunct2, THEN conjunct1])
    subgoal by (rule parameter_scenario_properties [THEN conjunct2, THEN conjunct2, THEN conjunct1])
    subgoal by (rule parameter_scenario_properties [THEN conjunct2, THEN conjunct2, THEN conjunct2])
    subgoal using parameter by blast
    subgoal using other object by blast
    subgoal using form by blast
    subgoal using merged by blast
    done
qed

text \<open>
  The three shapes, a parameter with an object schema and a description, an array
  body, an object body as JSON and as a form, and the merge of an object property.
\<close>

theorem withStringFallback_shapes_witness:
  "withStringFallback (JObj [(''$ref'', JStr ''#/$defs/Pet'')])
     = Inr (JObj [(''anyOf'', JArr [JObj [(''$ref'', JStr ''#/$defs/Pet'')], JObj [(''type'', JStr ''string'')]])])
   \<and> withStringFallback (JObj [(''type'', JStr ''array''), (''items'', JObj [(''type'', JStr ''integer'')])])
     = Inr (JObj [(''type'', JStr ''array''), (''items'', items_fallback (JObj [(''type'', JStr ''integer'')]))])
   \<and> withStringFallback (JObj [(''type'', JStr ''integer'')]) = Inr (JObj [(''type'', JStr ''integer'')])
   \<and> built_property ''filter'' (parameter_step 3 filter_parameter (start_building parameter_scenario_document))
     = Some (JObj [(''anyOf'', JArr [JObj (filter_translation @ [(''description'', JStr ''A filter'')]),
                                     JObj [(''type'', JStr ''string'')]])])
   \<and> request_body_step 3 (json_body list_schema) (start_building parameter_scenario_document)
     = Inr \<lparr>properties = [(''body'', JObj [(''type'', JStr ''array''),
                                            (''items'', items_fallback (JObj [(''type'', JStr ''string'')]))])],
            required = [JStr ''body''],
            self = new_converter parameter_scenario_document\<rparr>
   \<and> request_body_step 3 (json_body filter_schema) (start_building parameter_scenario_document)
     = merge_properties (JObj filter_translation) (start_building parameter_scenario_document)
   \<and> request_body_step 3 (form_body filter_schema) (start_building parameter_scenario_document)
     = merge_properties (JObj filter_translation) (start_building parameter_scenario_document)
   \<and> built_property ''p'' (merge_properties nested_body_schema (start_building parameter_scenario_document))
     = Some (JObj [(''anyOf'', JArr [JObj filter_translation, JObj [(''type'', JStr ''string'')]])])"
proof -
  let ?b = "start_building parameter_scenario_document"
  let ?c = "new_converter parameter_scenario_document"
  note complex_shape = withStringFallback_shapes [THEN conjunct1, rule_format]
  note array_shape = withStringFallback_shapes [THEN conjunct2, THEN conjunct1, rule_format, THEN conjunct1]
  note other_shape = withStringFallback_shapes [THEN conjunct2, THEN conjunct2, THEN conjunct1, rule_format]
  note parameter = withStringFallback_shapes [THEN conjunct2, THEN conjunct2, THEN conjunct2, THEN conjunct2, THEN conjunct2, THEN conjunct2, THEN conjunct2, THEN conjunct2, THEN conjunct1, rule_format]
  note body = withStringFallback_shapes [THEN conjunct2, THEN conjunct2, THEN conjunct2, THEN conjunct2, THEN conjunct2, THEN conjunct2, THEN conjunct2, THEN conjunct2, THEN conjunct2, THEN conjunct1, rule_format]
  note form = withStringFallback_shapes [THEN conjunct2, THEN conjunct2, THEN conjunct2, THEN conjunct2, THEN conjunct2, THEN conjunct2, THEN conjunct2, THEN conjunct2, THEN conjunct2, THEN conjunct2, THEN conjunct1, rule_format]
  note merged = withStringFallback_shapes [THEN conjunct2, THEN conjunct2, THEN conjunct2, THEN conjunct2, THEN conjunct2, THEN conjunct2, THEN conjunct2, THEN conjunct2, THEN conjunct2, THEN conjunct2, THEN conjunct2, rule_format]
  have complex: "is_complex [(''$ref'', JStr ''#/$defs/Pet'')]"
    by (simp add: is_complex_def)
  have plain_array: "\<not> is_complex [(''type'', JStr ''array''), (''items'', JObj [(''type'', JStr ''integer'')])]"
    by (simp add: is_complex_def)
  have plain: "\<not> is_complex [(''type'', JStr ''integer'')]"
    by (simp add: is_complex_def)
  have c1: "withStringFallback (JObj [(''$ref'', JStr ''#/$defs/Pet'')])
     = Inr (JObj [(''anyOf'', JArr [JObj [(''$ref'', JStr ''#/$defs/Pet'')], JObj [(''type'', JStr ''string'')]])])"
    using complex by (rule complex_shape)
  have "withStringFallback (JObj [(''type'', JStr ''array''), (''items'', JObj [(''type'', JStr ''integer'')])])
     = Inr (JObj (AList.update ''items'' (items_fallback (JObj [(''type'', JStr ''integer'')]))
          [(''type'', JStr ''array''), (''items'', JObj [(''type'', JStr ''integer'')])]))"
    using plain_array by (rule array_shape) simp_all
  then have c2: "withStringFallback (JObj [(''type'', JStr ''array''), (''items'', JObj [(''type'', JStr ''integer'')])])
     = Inr (JObj [(''type'', JStr ''array''), (''items'', items_fallback (JObj [(''type'', JStr ''integer'')]))])"
    by simp
  have c3: "withStringFallback (JObj [(''type'', JStr ''integer'')]) = Inr (JObj [(''type'', JStr ''integer'')])"
    using plain by (rule other_shape) simp
  have p1: "resolveParameter (self ?b) filter_parameter = Inr (Some filter_parameter)" by code_simp
  have p2: "js_get filter_parameter ''schema'' = Some filter_schema" by code_simp
  have p3: "truthy filter_schema" by code_simp
  have p4: "convert_fresh 3 filter_schema (self ?b) = Inr (JObj filter_translation, ?c)" by code_simp
  have p5: "key_string (js_get filter_parameter ''name'') = ''filter''" by code_simp
  have p5': "key_string (js_get filter_parameter ''name'') \<noteq> ''__proto__''" unfolding p5 by simp
  have p6: "withStringFallback (JObj (described filter_parameter filter_translation))
      = Inr (JObj [(''anyOf'', JArr [JObj (filter_translation @ [(''description'', JStr ''A filter'')]),
                                     JObj [(''type'', JStr ''string'')]])])"
    by code_simp
  have c4: "built_property ''filter'' (parameter_step 3 filter_parameter ?b)
     = Some (JObj [(''anyOf'', JArr [JObj (filter_translation @ [(''description'', JStr ''A filter'')]),
                                     JObj [(''type'', JStr ''string'')]])])"
    using parameter [OF p1 p2 p3 p4 p5' p6] unfolding p5 .
  have b1: "resolveRequestBody (self ?b) (json_body s) = Inr (Some (json_body s))" for s
    by (simp add: resolveRequestBody_def resolve_with_def json_body_def)
  have b2: "opt_get (Some (json_body s)) ''content'' = Some (JObj [(''application/json'', JObj [(''schema'', s)])])" for s
    by (simp add: opt_get_def json_body_def)
  have b3: "truthy (JObj [(''application/json'', JObj [(''schema'', s)])])" for s by simp
  have b4: "\<not> truthy_opt (opt_get (js_get (JObj [(''application/json'', JObj [(''schema'', s)])]) ''multipart/form-data'') ''schema'')" for s
    by (simp add: opt_get_def truthy_opt_def)
  have b5: "opt_get (js_get (JObj [(''application/json'', JObj [(''schema'', s)])]) ''application/json'') ''schema'' = Some s" for s
    by (simp add: opt_get_def)
  have l1: "truthy list_schema" by code_simp
  have l2: "convert_fresh 3 list_schema (self ?b)
      = Inr (JObj [(''type'', JStr ''array''), (''items'', JObj [(''type'', JStr ''string'')])], ?c)"
    by code_simp
  have l3: "\<not> object_with_properties (JObj [(''type'', JStr ''array''), (''items'', JObj [(''type'', JStr ''string'')])])"
    by (simp add: object_with_properties_def)
  have l4: "withStringFallback (JObj [(''type'', JStr ''array''), (''items'', JObj [(''type'', JStr ''string'')])])
      = Inr (JObj [(''type'', JStr ''array''), (''items'', items_fallback (JObj [(''type'', JStr ''string'')]))])"
    by code_simp
  have "request_body_step 3 (json_body list_schema) ?b
     = Inr (?b\<lparr>properties := obj_set ''body''
                (JObj [(''type'', JStr ''array''), (''items'', items_fallback (JObj [(''type'', JStr ''string'')]))])
                (properties ?b),
              required := required ?b @ [JStr ''body''], self := ?c\<rparr>)"
    using l3 l4 by (rule body [OF b1 b2 b3 b4 b5 l1 l2, THEN conjunct1, rule_format])
  then have c5: "request_body_step 3 (json_body list_schema) ?b
     = Inr \<lparr>properties = [(''body'', JObj [(''type'', JStr ''array''),
                                            (''items'', items_fallback (JObj [(''type'', JStr ''string'')]))])],
            required = [JStr ''body''], self = ?c\<rparr>"
    by (simp add: start_building_def obj_set_def)
  have f2: "object_with_properties (JObj filter_translation)" by code_simp
  have same: "?b\<lparr>self := ?c\<rparr> = ?b" by (simp add: start_building_def)
  have c6: "request_body_step 3 (json_body filter_schema) ?b = merge_properties (JObj filter_translation) ?b"
    using body [OF b1 b2 b3 b4 b5 p3 p4, THEN conjunct2, rule_format, OF f2] unfolding same .
  have m1: "resolveRequestBody (self ?b) (form_body filter_schema) = Inr (Some (form_body filter_schema))"
    by (simp add: resolveRequestBody_def resolve_with_def form_body_def)
  have m2: "opt_get (Some (form_body filter_schema)) ''content''
      = Some (JObj [(''multipart/form-data'', JObj [(''schema'', filter_schema)])])"
    by (simp add: opt_get_def form_body_def)
  have m3: "truthy (JObj [(''multipart/form-data'', JObj [(''schema'', filter_schema)])])" by simp
  have m4: "opt_get (js_get (JObj [(''multipart/form-data'', JObj [(''schema'', filter_schema)])]) ''multipart/form-data'') ''schema''
      = Some filter_schema"
    by (simp add: opt_get_def)
  have c7: "request_body_step 3 (form_body filter_schema) ?b = merge_properties (JObj filter_translation) ?b"
    using form [OF m1 m2 m3 m4 p3 p4 f2] unfolding same .
  have e: "object_entries (value_or_undefined (js_get nested_body_schema ''properties'')) = [(''p'', JObj filter_translation)]"
    by (simp add: nested_body_schema_def value_or_undefined_def)
  have q1: "\<And>kv. kv \<in> set (object_entries (value_or_undefined (js_get nested_body_schema ''properties'')))
           \<Longrightarrow> \<exists>skvs. snd kv = JObj skvs"
    unfolding e by simp
  have q2: "distinct (map fst (object_entries (value_or_undefined (js_get nested_body_schema ''properties''))))"
    unfolding e by simp
  have q3: "js_get nested_body_schema ''required'' = None \<or> (\<exists>rs. js_get nested_body_schema ''required'' = Some (JArr rs))"
    by (simp add: nested_body_schema_def)
  have q4: "(''p'', JObj filter_translation) \<in> set (object_entries (value_or_undefined (js_get nested_body_schema ''properties'')))"
    unfolding e by simp
  have q5: "''p'' \<noteq> ''__proto__''" by simp
  have q6: "withStringFallback (JObj filter_translation)
      = Inr (JObj [(''anyOf'', JArr [JObj filter_translation, JObj [(''type'', JStr ''string'')]])])"
    by code_simp
  have c8: "built_property ''p'' (merge_properties nested_body_schema ?b)
     = Some (JObj [(''anyOf'', JArr [JObj filter_translation, JObj [(''type'', JStr ''string'')]])])"
    using q1 q2 q3 q4 q5 q6 by (rule merged)
  from c1 c2 c3 c4 c5 c6 c7 c8 show ?thesis by (intro conjI)
qed

end
